theory Spec2Isabelle
  imports Main "HOL-Library.Sublist"
begin

section \<open>Text helpers of the client (react-ui/src/App.js)\<close>

text \<open>
  A JavaScript string is modelled as a list of 8-bit characters, read as UTF-16 code
  units below 256. The white space of \<^verbatim>\<open>String.prototype.trim\<close> in that range is TAB, LF,
  VT, FF, CR, SPACE and NBSP.
\<close>

definition nl :: char where
  "nl = CHR 0x0A"

definition cr :: char where
  "cr = CHR 0x0D"

definition is_ws :: "char \<Rightarrow> bool" where
  "is_ws c = (c = CHR 0x09 \<or> c = CHR 0x0A \<or> c = CHR 0x0B \<or> c = CHR 0x0C \<or> c = CHR 0x0D
     \<or> c = CHR 0x20 \<or> c = CHR 0xA0)"

definition trimStart :: "string \<Rightarrow> string" where
  "trimStart s = dropWhile is_ws s"

definition trimEnd :: "string \<Rightarrow> string" where
  "trimEnd s = rev (dropWhile is_ws (rev s))"

definition trim :: "string \<Rightarrow> string" where
  "trim s = trimEnd (trimStart s)"

text \<open>\<^verbatim>\<open>t.split('\n')[0]\<close>: the text before the first line break (all of it when there is none).\<close>

definition first_line :: "string \<Rightarrow> string" where
  "first_line t = takeWhile (\<lambda>c. c \<noteq> nl) t"

text \<open>\<^verbatim>\<open>t.slice(t.indexOf('\n') + 1)\<close>: \<^verbatim>\<open>indexOf\<close> is -1 when there is no line break, and the
  slice is then the whole text.\<close>

definition slice_after_nl :: "string \<Rightarrow> string" where
  "slice_after_nl t = (if nl \<in> set t then drop (Suc (length (first_line t))) t else t)"

text \<open>
  Case-insensitive matching of a regular expression without the \<^verbatim>\<open>u\<close> flag compares
  the upper-case forms of single code units. Below 256 that maps a-z to A-Z and the
  letters 0xE0-0xFE (but 0xF7) to 0xC0-0xDE; every other code unit stands for itself
  (0xB5 and 0xFF have upper-case forms above 255, which no pattern character has).
\<close>

definition canon :: "char \<Rightarrow> char" where
  "canon c = (let n = (of_char c :: nat) in
     if 97 \<le> n \<and> n \<le> 122 then char_of (n - 32)
     else if 224 \<le> n \<and> n \<le> 254 \<and> n \<noteq> 247 then char_of (n - 32)
     else c)"

definition ci_prefix :: "string \<Rightarrow> string \<Rightarrow> bool" where
  "ci_prefix p s = (length p \<le> length s \<and> map canon (take (length p) s) = map canon p)"

definition meta_prefixes :: "string list" where
  "meta_prefixes =
    [''antwort:'', ''die erste zeile sollte'',
     ''keine erkl'' @ [CHR 0xE4] @ ''rungen'', ''keine aufz'' @ [CHR 0xE4] @ ''hlungen'',
     ''nur die nackte wahrheit'', ''nur zwei einzelne s'' @ [CHR 0xE4] @ ''tze'',
     ''no explanation'', ''just the answer'', ''format:'']"

text \<open>\<^verbatim>\<open>metaLine.test(s)\<close>: the pattern is anchored at the start of the string.\<close>

definition metaLine :: "string \<Rightarrow> bool" where
  "metaLine s = list_ex (\<lambda>p. ci_prefix p s) meta_prefixes"

text \<open>The loop of \<^verbatim>\<open>sanitizeAssistant\<close>; \<open>removed\<close> is its counter.\<close>

function sanitize_loop :: "nat \<Rightarrow> string \<Rightarrow> string" where
  "sanitize_loop removed t =
     (if removed < 2 then
        (if metaLine (trim (first_line t)) then sanitize_loop (removed + 1) (slice_after_nl t)
         else t)
      else t)"
  by pat_completeness auto
termination
  by (relation "measure (\<lambda>(removed, t). 2 - removed)") auto

definition sanitizeAssistant :: "string \<Rightarrow> string" where
  "sanitizeAssistant s = trim (sanitize_loop 0 (trimStart s))"

text \<open>
  \<^verbatim>\<open>.replace(/\n{3,}/g, '\n\n')\<close>: scanning from the left, every maximal run of three or
  more line breaks becomes two. \<open>n\<close> counts the line breaks of the run being read.
\<close>

definition emit_run :: "nat \<Rightarrow> string" where
  "emit_run n = (if 3 \<le> n then [nl, nl] else replicate n nl)"

fun collapse_run :: "nat \<Rightarrow> string \<Rightarrow> string" where
  "collapse_run n [] = emit_run n"
| "collapse_run n (c # cs) =
     (if c = nl then collapse_run (Suc n) cs else emit_run n @ c # collapse_run 0 cs)"

definition collapse_nl :: "string \<Rightarrow> string" where
  "collapse_nl t = collapse_run 0 t"

definition normalizeText :: "string \<Rightarrow> string" where
  "normalizeText t = trim (collapse_nl (filter (\<lambda>c. c \<noteq> cr) t))"

text \<open>The pass applied on completion: \<^verbatim>\<open>normalizeText(sanitizeAssistant(last.content))\<close>.\<close>

definition cleaned :: "string \<Rightarrow> string" where
  "cleaned content = normalizeText (sanitizeAssistant content)"

text \<open>\<^verbatim>\<open>(text.match(/```/g) || []).length\<close>: matches do not overlap.\<close>

fun count_fence :: "string \<Rightarrow> nat" where
  "count_fence (a # b # c # cs) =
     (if a = CHR 0x60 \<and> b = CHR 0x60 \<and> c = CHR 0x60 then Suc (count_fence cs)
      else count_fence (b # c # cs))"
| "count_fence cs = 0"

definition hasOpenCodeFence :: "string \<Rightarrow> bool" where
  "hasOpenCodeFence text = (count_fence text mod 2 = 1)"

text \<open>\<^verbatim>\<open>s.slice(-n)\<close> for positive \<open>n\<close>: the last \<open>n\<close> code units, or all of a shorter text.\<close>

definition slice_last :: "nat \<Rightarrow> string \<Rightarrow> string" where
  "slice_last n s = drop (length s - n) s"

text \<open>Predicates used to state the properties of the pass.\<close>

definition trimmed :: "string \<Rightarrow> bool" where
  "trimmed s = (s = [] \<or> (\<not> is_ws (hd s) \<and> \<not> is_ws (last s)))"

definition no3 :: "string \<Rightarrow> bool" where
  "no3 s = (\<not> sublist [nl, nl, nl] s)"

text \<open>A text whose first line the loop removes: the line starts with a meta prefix and a
  line break follows it.\<close>

definition strippable :: "string \<Rightarrow> bool" where
  "strippable t = (metaLine (trim (first_line t)) \<and> nl \<in> set t)"

definition drop_line :: "string \<Rightarrow> string" where
  "drop_line t = drop (Suc (length (first_line t))) t"

section \<open>The stream frame decoder (chatWithOllama in lib/ollama.js)\<close>

text \<open>
  A parsed record is a JSON value. The decoder only observes of a number whether it is
  truthy and how it prints, so the number type is a parameter, and the three built-ins
  the decoder relies on are collected in a record: \<open>json_parse\<close> is \<^verbatim>\<open>JSON.parse\<close> (\<open>None\<close>
  when it throws), \<open>num_truthy\<close> and \<open>num_string\<close> are the truth value and the string
  conversion of a number.
\<close>

datatype 'n json =
    JNull
  | JBool bool
  | JNum 'n
  | JStr string
  | JArr "'n json list"
  | JObj "(string \<times> 'n json) list"

record 'n js =
  json_parse :: "string \<Rightarrow> 'n json option"
  num_truthy :: "'n \<Rightarrow> bool"
  num_string :: "'n \<Rightarrow> string"

text \<open>
  Property access \<^verbatim>\<open>v.k\<close> on a value other than \<^verbatim>\<open>null\<close>, for the keys the decoder reads
  (message, content, response, done): \<open>None\<close> is \<^verbatim>\<open>undefined\<close>. \<^verbatim>\<open>JSON.parse\<close> keeps the
  last of several members with one key.
\<close>

fun get_prop :: "'n json \<Rightarrow> string \<Rightarrow> 'n json option" where
  "get_prop (JObj kvs) k = map_of (rev kvs) k"
| "get_prop v k = None"

definition nullish :: "'n json option \<Rightarrow> bool" where
  "nullish v = (v = None \<or> v = Some JNull)"

text \<open>Truthiness (\<^verbatim>\<open>if (piece)\<close>, \<^verbatim>\<open>if (obj.done)\<close>).\<close>

fun truthy :: "'n js \<Rightarrow> 'n json \<Rightarrow> bool" where
  "truthy js JNull = False"
| "truthy js (JBool b) = b"
| "truthy js (JNum n) = num_truthy js n"
| "truthy js (JStr s) = (s \<noteq> [])"
| "truthy js (JArr xs) = True"
| "truthy js (JObj kvs) = True"

text \<open>String conversion, as \<^verbatim>\<open>acc += piece\<close> applies it to a piece that is not a string.\<close>

fun join_comma :: "string list \<Rightarrow> string" where
  "join_comma [] = []"
| "join_comma [x] = x"
| "join_comma (x # y # ys) = x @ '','' @ join_comma (y # ys)"

fun js_to_string :: "'n js \<Rightarrow> 'n json \<Rightarrow> string" where
  "js_to_string js JNull = ''null''"
| "js_to_string js (JBool b) = (if b then ''true'' else ''false'')"
| "js_to_string js (JNum n) = num_string js n"
| "js_to_string js (JStr s) = s"
| "js_to_string js (JArr xs) =
     join_comma (map (\<lambda>x. if x = JNull then [] else js_to_string js x) xs)"
| "js_to_string js (JObj kvs) = ''[object Object]''"

text \<open>
  \<^verbatim>\<open>obj.message?.content ?? obj.response ?? ''\<close>. Reading \<^verbatim>\<open>obj.message\<close> throws a
  TypeError when \<open>obj\<close> is \<^verbatim>\<open>null\<close>: the result is \<open>None\<close> then.
\<close>

definition piece_of :: "'n json \<Rightarrow> 'n json option" where
  "piece_of obj =
     (if obj = JNull then None
      else
        let message = get_prop obj ''message'';
            content = (if nullish message then None else get_prop (the message) ''content'');
            response = get_prop obj ''response''
        in Some (if \<not> nullish content then the content
                 else if \<not> nullish response then the response
                 else JStr []))"

text \<open>
  The callbacks: \<open>Delta piece acc\<close> is a call \<^verbatim>\<open>onDelta(piece, acc)\<close> (the piece in its
  string form), \<open>Done acc\<close> a call \<^verbatim>\<open>onDone(acc)\<close>. A run of the decoder is the list of its
  calls and how it ended.
\<close>

datatype event = Delta string string | Done string

datatype js_error = AbortError | NetworkError | TypeError | HttpError | InvalidPayload

datatype outcome = Returned string | Threw js_error

text \<open>\<^verbatim>\<open>buf.split('\n')\<close>: never empty; its last element is the unfinished line.\<close>

fun split_nl :: "string \<Rightarrow> string list" where
  "split_nl [] = [[]]"
| "split_nl (c # cs) =
     (if c = nl then [] # split_nl cs
      else (case split_nl cs of [] \<Rightarrow> [[c]] | l # ls \<Rightarrow> (c # l) # ls))"

text \<open>
  The \<^verbatim>\<open>for\<close> loop over the complete lines of one chunk: \<open>Inl acc\<close> when it runs to its
  end, \<open>Inr\<close> when the function returns (a record with a truthy \<^verbatim>\<open>done\<close>) or throws.
\<close>

fun process_lines :: "'n js \<Rightarrow> string list \<Rightarrow> string \<Rightarrow> event list \<times> (string + outcome)" where
  "process_lines js [] acc = ([], Inl acc)"
| "process_lines js (line # rest) acc =
     (let s = trim line in
      if s = [] then process_lines js rest acc
      else case json_parse js s of
        None \<Rightarrow> process_lines js rest acc
      | Some obj \<Rightarrow>
          (case piece_of obj of
            None \<Rightarrow> ([], Inr (Threw TypeError))
          | Some piece \<Rightarrow>
              let acc' = (if truthy js piece then acc @ js_to_string js piece else acc);
                  deltas = (if truthy js piece then [Delta (js_to_string js piece) acc'] else [])
              in if (case get_prop obj ''done'' of None \<Rightarrow> False | Some d \<Rightarrow> truthy js d)
                 then (deltas @ [Done acc'], Inr (Returned acc'))
                 else let (evs, r) = process_lines js rest acc' in (deltas @ evs, r)))"

text \<open>
  The \<^verbatim>\<open>while\<close> loop over the chunks that \<^verbatim>\<open>reader.read()\<close> delivers (each already decoded to
  text), from the buffer \<open>buf\<close> and the accumulated text \<open>acc\<close>.
\<close>

fun feed :: "'n js \<Rightarrow> string list \<Rightarrow> string \<Rightarrow> string \<Rightarrow> event list \<times> (string \<times> string + outcome)" where
  "feed js [] buf acc = ([], Inl (buf, acc))"
| "feed js (chunk # chunks) buf acc =
     (let lines = split_nl (buf @ chunk) in
      case process_lines js (butlast lines) acc of
        (evs, Inr out) \<Rightarrow> (evs, Inr out)
      | (evs, Inl acc') \<Rightarrow>
          let (evs', r) = feed js chunks (last lines) acc' in (evs @ evs', r))"

text \<open>The code after the loop: the rest of the buffer is parsed inside \<^verbatim>\<open>try\<close> (\<open>tail_piece\<close> is
  the piece it yields, if any), then \<^verbatim>\<open>onDone(acc)\<close> is called.\<close>

definition tail_piece :: "'n js \<Rightarrow> string \<Rightarrow> string option" where
  "tail_piece js buf =
     (let s = trim buf in
      if s = [] then None
      else case json_parse js s of
        None \<Rightarrow> None
      | Some obj \<Rightarrow>
          (case piece_of obj of
            None \<Rightarrow> None
          | Some piece \<Rightarrow> if truthy js piece then Some (js_to_string js piece) else None))"

definition tail_flush :: "'n js \<Rightarrow> string \<Rightarrow> string \<Rightarrow> event list \<times> outcome" where
  "tail_flush js buf acc =
     (case tail_piece js buf of
        None \<Rightarrow> ([Done acc], Returned acc)
      | Some p \<Rightarrow> ([Delta p (acc @ p), Done (acc @ p)], Returned (acc @ p)))"

text \<open>
  After its chunks the stream ends (\<^verbatim>\<open>done: true\<close>) or \<^verbatim>\<open>reader.read()\<close> rejects: with an
  AbortError when the caller aborts the request, with another error when the transport fails.
\<close>

datatype read_end = Eof | ReadFail js_error

definition read_loop :: "'n js \<Rightarrow> string list \<Rightarrow> read_end \<Rightarrow> event list \<times> outcome" where
  "read_loop js chunks ending =
     (case feed js chunks [] [] of
        (evs, Inr out) \<Rightarrow> (evs, out)
      | (evs, Inl (buf, acc)) \<Rightarrow>
          (case ending of
             ReadFail e \<Rightarrow> (evs, Threw e)
           | Eof \<Rightarrow> (let (evs', out) = tail_flush js buf acc in (evs @ evs', out))))"

text \<open>
  The request and the answer of \<^verbatim>\<open>fetch\<close>: it rejects, or it resolves to a response with
  its \<^verbatim>\<open>ok\<close> flag and, when it has a body, the stream.
\<close>

record payload =
  model :: string
  messages :: "(string \<times> string) list"

datatype fetch_result =
    FetchThrows js_error
  | Response bool "(string list \<times> read_end) option"

definition chatWithOllama :: "'n js \<Rightarrow> payload \<Rightarrow> fetch_result \<Rightarrow> event list \<times> outcome" where
  "chatWithOllama js p fr =
     (if model p = [] \<or> messages p = [] then ([], Threw InvalidPayload)
      else case fr of
        FetchThrows e \<Rightarrow> ([], Threw e)
      | Response ok body \<Rightarrow>
          (case body of
             None \<Rightarrow> ([], Threw HttpError)
           | Some (chunks, ending) \<Rightarrow>
               if \<not> ok then ([], Threw HttpError) else read_loop js chunks ending))"

subsection \<open>A model of the built-ins\<close>

text \<open>
  \<open>JSON_parse\<close> models \<^verbatim>\<open>JSON.parse\<close> on texts whose numbers are integer literals and whose
  strings have no \<^verbatim>\<open>\u\<close> escapes; it instantiates the parameter \<open>json_parse\<close> where a
  concrete run is evaluated. The fuel of \<open>parse_value\<close> is one more than the length of the
  text, and every call consumes a character.
\<close>

definition json_ws :: "char \<Rightarrow> bool" where
  "json_ws c = (c = CHR 0x20 \<or> c = CHR 0x09 \<or> c = CHR 0x0A \<or> c = CHR 0x0D)"

definition skip_ws :: "string \<Rightarrow> string" where
  "skip_ws s = dropWhile json_ws s"

definition unescape :: "char \<Rightarrow> char option" where
  "unescape e =
     (if e = CHR 0x22 then Some (CHR 0x22)
      else if e = CHR 0x5C then Some (CHR 0x5C)
      else if e = CHR ''/'' then Some (CHR ''/'')
      else if e = CHR ''b'' then Some (CHR 0x08)
      else if e = CHR ''f'' then Some (CHR 0x0C)
      else if e = CHR ''n'' then Some (CHR 0x0A)
      else if e = CHR ''r'' then Some (CHR 0x0D)
      else if e = CHR ''t'' then Some (CHR 0x09)
      else None)"

fun parse_string_body :: "string \<Rightarrow> (string \<times> string) option" where
  "parse_string_body [] = None"
| "parse_string_body [c] = (if c = CHR 0x22 then Some ([], []) else None)"
| "parse_string_body (c # d # cs) =
     (if c = CHR 0x22 then Some ([], d # cs)
      else if c = CHR 0x5C then
        (case unescape d of
           None \<Rightarrow> None
         | Some ch \<Rightarrow> map_option (\<lambda>(s, r). (ch # s, r)) (parse_string_body cs))
      else if (of_char c :: nat) < 32 then None
      else map_option (\<lambda>(s, r). (c # s, r)) (parse_string_body (d # cs)))"

definition is_digit :: "char \<Rightarrow> bool" where
  "is_digit c = (48 \<le> (of_char c :: nat) \<and> (of_char c :: nat) \<le> 57)"

definition digits_value :: "string \<Rightarrow> nat" where
  "digits_value ds = foldl (\<lambda>v c. 10 * v + (of_char c - 48)) 0 ds"

definition parse_int :: "string \<Rightarrow> (int \<times> string) option" where
  "parse_int s =
     (let neg = (s \<noteq> [] \<and> hd s = CHR ''-'');
          body = (if neg then tl s else s);
          ds = takeWhile is_digit body;
          r = dropWhile is_digit body
      in if ds = [] \<or> (hd ds = CHR ''0'' \<and> length ds > 1) then None
         else if r \<noteq> [] \<and> (hd r = CHR ''.'' \<or> hd r = CHR ''e'' \<or> hd r = CHR ''E'') then None
         else Some (if neg then - int (digits_value ds) else int (digits_value ds), r))"

fun parse_value :: "nat \<Rightarrow> string \<Rightarrow> (int json \<times> string) option"
  and parse_members :: "nat \<Rightarrow> string \<Rightarrow> ((string \<times> int json) list \<times> string) option"
  and parse_elements :: "nat \<Rightarrow> string \<Rightarrow> (int json list \<times> string) option" where
  "parse_value 0 s = None"
| "parse_value (Suc n) s =
     (let t = skip_ws s in
      if t = [] then None
      else if hd t = CHR ''{'' then
        (if skip_ws (tl t) \<noteq> [] \<and> hd (skip_ws (tl t)) = CHR ''}''
         then Some (JObj [], tl (skip_ws (tl t)))
         else map_option (\<lambda>(kvs, r). (JObj kvs, r)) (parse_members n (tl t)))
      else if hd t = CHR ''['' then
        (if skip_ws (tl t) \<noteq> [] \<and> hd (skip_ws (tl t)) = CHR '']''
         then Some (JArr [], tl (skip_ws (tl t)))
         else map_option (\<lambda>(vs, r). (JArr vs, r)) (parse_elements n (tl t)))
      else if hd t = CHR 0x22 then
        map_option (\<lambda>(v, r). (JStr v, r)) (parse_string_body (tl t))
      else if take 4 t = ''true'' then Some (JBool True, drop 4 t)
      else if take 5 t = ''false'' then Some (JBool False, drop 5 t)
      else if take 4 t = ''null'' then Some (JNull, drop 4 t)
      else map_option (\<lambda>(v, r). (JNum v, r)) (parse_int t))"
| "parse_members 0 s = None"
| "parse_members (Suc n) s =
     (let t = skip_ws s in
      if t = [] \<or> hd t \<noteq> CHR 0x22 then None
      else case parse_string_body (tl t) of
        None \<Rightarrow> None
      | Some (k, r) \<Rightarrow>
          (let r1 = skip_ws r in
           if r1 = [] \<or> hd r1 \<noteq> CHR '':'' then None
           else case parse_value n (tl r1) of
             None \<Rightarrow> None
           | Some (v, r2) \<Rightarrow>
               (let r3 = skip_ws r2 in
                if r3 = [] then None
                else if hd r3 = CHR '','' then
                  map_option (\<lambda>(kvs, r4). ((k, v) # kvs, r4)) (parse_members n (tl r3))
                else if hd r3 = CHR ''}'' then Some ([(k, v)], tl r3)
                else None)))"
| "parse_elements 0 s = None"
| "parse_elements (Suc n) s =
     (case parse_value n s of
        None \<Rightarrow> None
      | Some (v, r2) \<Rightarrow>
          (let r3 = skip_ws r2 in
           if r3 = [] then None
           else if hd r3 = CHR '','' then
             map_option (\<lambda>(vs, r4). (v # vs, r4)) (parse_elements n (tl r3))
           else if hd r3 = CHR '']'' then Some ([v], tl r3)
           else None))"

definition JSON_parse :: "string \<Rightarrow> int json option" where
  "JSON_parse s =
     (case parse_value (Suc (length s)) s of
        None \<Rightarrow> None
      | Some (v, r) \<Rightarrow> if skip_ws r = [] then Some v else None)"

function dec_digits :: "nat \<Rightarrow> string" where
  "dec_digits n = (if n < 10 then [char_of (48 + n)] else dec_digits (n div 10) @ [char_of (48 + n mod 10)])"
  by pat_completeness auto
termination
  by (relation "measure id") auto

definition int_string :: "int \<Rightarrow> string" where
  "int_string i = (if i < 0 then CHR ''-'' # dec_digits (nat (- i)) else dec_digits (nat i))"

definition std_js :: "int js" where
  "std_js = \<lparr>json_parse = JSON_parse, num_truthy = (\<lambda>n. n \<noteq> 0), num_string = int_string\<rparr>"

section \<open>The conversation session (sendChat in App.js)\<close>

text \<open>
  One call of \<^verbatim>\<open>sendChat\<close>. A turn holds what the function reads when it starts: the
  component's state and the texts it builds the first request from. \<open>sendModel\<close> is the
  result of \<^verbatim>\<open>resolveModelId(model, models)\<close>, \<open>systemText\<close> of \<^verbatim>\<open>makeSystemText()\<close>, \<open>formatExtra\<close> the
  sentence-count suffix (\<^verbatim>\<open>extra\<close>) and \<open>docContext\<close> the rendered context message of an
  attached document (name, text).
\<close>

datatype ui_error = NoError | NoModel | CreateChatFailed js_error | StreamFailed js_error

record turn =
  prompt :: string
  attachedDoc :: "(string \<times> string) option"
  keepDoc :: bool
  sendModel :: string
  incognito :: bool
  currentChatId :: "string option"
  systemText :: string
  formatExtra :: string
  docContext :: string
  error0 :: ui_error
  loading0 :: bool

text \<open>
  What the world answers during the turn. \<^verbatim>\<open>lastAssistantTextRef.current\<close> is written by React
  state updaters and by the flush timer, whose scheduling is not in the source, so each
  read of it is an input: \<open>text_at_check n\<close> is its value when the loop condition is
  evaluated after \<open>n\<close> repairs, \<open>text_at_final\<close> its value when \<^verbatim>\<open>finalText\<close> is read.
  \<open>createChat_result\<close> is the identifier \<^verbatim>\<open>c.id\<close> or the error thrown; the \<open>_ok\<close> flags say
  whether the call of \<^verbatim>\<open>lib/api.js\<close> resolves or throws.
\<close>

record env =
  createChat_result :: "js_error + string"
  main_fetch :: fetch_result
  text_at_check :: "nat \<Rightarrow> string"
  repair_fetch :: "nat \<Rightarrow> fetch_result"
  appendUser_ok :: bool
  text_at_final :: string
  appendAssistant_ok :: bool
  updateChat_ok :: bool
  deleteDraft_ok :: bool

text \<open>The calls that leave the browser, in order: to the storage API and to the model.\<close>

datatype call =
    CreateChat string
  | Generate payload
  | AppendMessage string string string
  | UpdateChat string string string
  | DeleteDraft
  | RefreshChatList

record result =
  calls :: "call list"
  error :: ui_error
  loading :: bool
  chatId :: "string option"

text \<open>\<^verbatim>\<open>chatWithOllama\<close> calls \<^verbatim>\<open>fetch\<close> only after its payload check.\<close>

definition requests :: "payload \<Rightarrow> call list" where
  "requests p = (if model p = [] \<or> messages p = [] then [] else [Generate p])"

definition truthy_id :: "string option \<Rightarrow> bool" where
  "truthy_id c = (case c of None \<Rightarrow> False | Some cid \<Rightarrow> cid \<noteq> [])"

definition keep_hint :: string where
  "keep_hint = ''\<newline>\<newline>(Hinweis: Das angeh'' @ [CHR 0xE4] @ ''ngte Dokument bleibt im Chat-Kontext)''"

definition main_payload :: "turn \<Rightarrow> payload" where
  "main_payload t =
     (let has_doc = (case attachedDoc t of None \<Rightarrow> False | Some (name, text) \<Rightarrow> text \<noteq> []);
          suffixKeep = (if has_doc \<and> keepDoc t then keep_hint else []);
          userTurn = (''user'', trim (prompt t) @ formatExtra t @ suffixKeep)
      in \<lparr>model = sendModel t,
          messages = [(''system'', systemText t)]
                     @ (if has_doc then [(''user'', docContext t)] else [])
                     @ [userTurn]\<rparr>)"

definition repair_intro :: string where
  "repair_intro = ''Fahre **nahtlos** fort und **schlie'' @ [CHR 0xDF]
     @ ''e den offenen Code-Block**. Keine Meta-Texte, keine Einleitung.\<newline>Vorheriger Ausschnitt:\<newline><<<\<newline>''"

definition repair_payload :: "turn \<Rightarrow> string \<Rightarrow> payload" where
  "repair_payload t excerpt =
     \<lparr>model = sendModel t,
      messages = [(''system'', systemText t), (''user'', repair_intro @ excerpt @ ''\<newline>>>>'')]\<rparr>"

text \<open>
  The loop \<^verbatim>\<open>while (tries < 1 && hasOpenCodeFence(...))\<close> inside \<^verbatim>\<open>try { } catch {}\<close>: a repair
  request that throws ends the loop, and the error is dropped.
\<close>

function continuation :: "'n js \<Rightarrow> turn \<Rightarrow> env \<Rightarrow> nat \<Rightarrow> call list" where
  "continuation js t env tries =
     (if tries < 1 \<and> hasOpenCodeFence (text_at_check env tries) then
        (let excerpt = slice_last 800 (text_at_check env tries);
             p = repair_payload t excerpt
         in case snd (chatWithOllama js p (repair_fetch env tries)) of
              Threw e \<Rightarrow> requests p
            | Returned acc \<Rightarrow> requests p @ continuation js t env (tries + 1))
      else [])"
  by pat_completeness auto
termination
  by (relation "measure (\<lambda>(js, t, env, tries). 1 - tries)") auto

text \<open>
  The persistence block \<^verbatim>\<open>if (!incognito && chatId) { try { ... } catch {} }\<close>: the first call
  that throws ends it.
\<close>

definition persist :: "turn \<Rightarrow> env \<Rightarrow> string option \<Rightarrow> call list" where
  "persist t env chat =
     (if incognito t \<or> \<not> truthy_id chat then []
      else
        let cid = the chat; userTextRaw = trim (prompt t) in
        AppendMessage cid ''user'' userTextRaw #
        (if \<not> appendUser_ok env then []
         else AppendMessage cid ''assistant'' (text_at_final env) #
           (if \<not> appendAssistant_ok env then []
            else UpdateChat cid (take 60 (if userTextRaw = [] then ''Chat'' else userTextRaw)) (sendModel t) #
              (if \<not> updateChat_ok env then []
               else DeleteDraft # (if \<not> deleteDraft_ok env then [] else [RefreshChatList])))))"

definition sendChat :: "'n js \<Rightarrow> turn \<Rightarrow> env \<Rightarrow> result" where
  "sendChat js t env =
     (if trim (prompt t) = [] \<and> attachedDoc t = None then
        \<lparr>calls = [], error = error0 t, loading = loading0 t, chatId = currentChatId t\<rparr>
      else if sendModel t = [] then
        \<lparr>calls = [], error = NoModel, loading = loading0 t, chatId = currentChatId t\<rparr>
      else
        let create = (\<not> incognito t \<and> \<not> truthy_id (currentChatId t));
            created = (if create then [CreateChat (sendModel t)] else [])
        in case (if create then createChat_result env else Inr []) of
             Inl e \<Rightarrow>
               \<lparr>calls = created, error = CreateChatFailed e, loading = False,
                chatId = currentChatId t\<rparr>
           | Inr new_id \<Rightarrow>
               let chat = (if create then Some new_id else currentChatId t);
                   p = main_payload t
               in (case snd (chatWithOllama js p (main_fetch env)) of
                     Threw e \<Rightarrow>
                       \<lparr>calls = created @ requests p,
                        error = (if e = AbortError then NoError else StreamFailed e),
                        loading = False, chatId = chat\<rparr>
                   | Returned acc \<Rightarrow>
                       \<lparr>calls = created @ requests p @ continuation js t env 0 @ persist t env chat,
                        error = NoError, loading = False, chatId = chat\<rparr>))"

text \<open>Predicates used to state the properties of a turn.\<close>

definition is_append :: "call \<Rightarrow> bool" where
  "is_append c = (case c of AppendMessage cid role content \<Rightarrow> True | _ \<Rightarrow> False)"

definition is_ledger_call :: "call \<Rightarrow> bool" where
  "is_ledger_call c =
     (case c of CreateChat m \<Rightarrow> True | AppendMessage cid role content \<Rightarrow> True
      | UpdateChat cid title m \<Rightarrow> True | _ \<Rightarrow> False)"

definition is_generate :: "call \<Rightarrow> bool" where
  "is_generate c = (case c of Generate p \<Rightarrow> True | _ \<Rightarrow> False)"

text \<open>
  The conversation of a turn that is not ephemeral: the current one, or the one created
  for it. A turn completes when it has input and a model, its conversation (if it needs
  one) is created, and the first stream reaches \<^verbatim>\<open>onDone\<close>.
\<close>

definition conversation :: "turn \<Rightarrow> env \<Rightarrow> string option" where
  "conversation t env =
     (if truthy_id (currentChatId t) then currentChatId t
      else case createChat_result env of Inl e \<Rightarrow> None | Inr new_id \<Rightarrow> Some new_id)"

definition completes :: "'n js \<Rightarrow> turn \<Rightarrow> env \<Rightarrow> bool" where
  "completes js t env =
     ((trim (prompt t) \<noteq> [] \<or> attachedDoc t \<noteq> None) \<and> sendModel t \<noteq> []
      \<and> (incognito t \<or> conversation t env \<noteq> None)
      \<and> (case snd (chatWithOllama js (main_payload t) (main_fetch env)) of
            Returned acc \<Rightarrow> True | Threw e \<Rightarrow> False))"

text \<open>Concrete turns and environments, for evaluating the session.\<close>

definition turn1 :: turn where
  "turn1 = \<lparr>prompt = '' hi '', attachedDoc = None, keepDoc = True, sendModel = ''m'',
     incognito = False, currentChatId = None, systemText = ''sys'', formatExtra = [],
     docContext = [], error0 = NoError, loading0 = False\<rparr>"

definition env1 :: env where
  "env1 = \<lparr>createChat_result = Inr ''c1'',
     main_fetch = Response True
       (Some ([''{\"message\":{\"content\":\"```a\"}}\<newline>{\"done\":true}\<newline>''], Eof)),
     text_at_check = (\<lambda>n. ''```a''), repair_fetch = (\<lambda>n. FetchThrows NetworkError),
     appendUser_ok = True, text_at_final = ''```a'', appendAssistant_ok = True,
     updateChat_ok = True, deleteDraft_ok = True\<rparr>"

definition env_aborted :: env where
  "env_aborted = env1\<lparr>main_fetch := Response True
       (Some ([''{\"message\":{\"content\":\"ab\"}}\<newline>''], ReadFail AbortError))\<rparr>"

definition turn_incognito :: turn where
  "turn_incognito = turn1\<lparr>incognito := True\<rparr>"

text \<open>
  The same stream read before the first tick of the 50 ms flush timer, in the first turn
  of the page: \<^verbatim>\<open>lastAssistantTextRef.current\<close> still holds its initial empty text at every read.
\<close>

definition env_unflushed :: env where
  "env_unflushed = env1\<lparr>text_at_check := (\<lambda>n. []), text_at_final := []\<rparr>"

definition env_append_fails :: env where
  "env_append_fails = env_unflushed\<lparr>appendUser_ok := False\<rparr>"

definition env_second_fails :: env where
  "env_second_fails = env_unflushed\<lparr>appendAssistant_ok := False\<rparr>"

definition env_repaired :: env where
  "env_repaired = env1\<lparr>repair_fetch := (\<lambda>n. Response True
       (Some ([''{\"message\":{\"content\":\"b\"},\"done\":true}\<newline>''], Eof)))\<rparr>"

section \<open>The message ledger (the storage server's routes on a conversation)\<close>

text \<open>
  The tables the routes use, with the columns they read or write. \<open>chats\<close> is keyed by
  the conversation identifier; \<open>msg_idx\<close> is the position (\<^verbatim>\<open>idx INT\<close>).
\<close>

record chat_row =
  chat_user :: string
  chat_updated_at :: string

record msg_row =
  msg_id :: string
  msg_chat :: string
  msg_role :: string
  msg_content :: string
  msg_idx :: int
  msg_created_at :: string

text \<open>
  A request \<^verbatim>\<open>POST /chats/:id/messages\<close> that has passed \<^verbatim>\<open>auth\<close>: the conversation of the
  path, the authenticated user, the body (\<open>req_role\<close> is the string form of \<^verbatim>\<open>role\<close>, empty
  when it is missing or falsy; \<open>req_content\<close> is \<open>None\<close> when \<^verbatim>\<open>content\<close> is not a string), and
  the values \<^verbatim>\<open>nanoid()\<close> and \<^verbatim>\<open>nowISO()\<close> will return to its handler.
\<close>

record request =
  req_chat :: string
  req_user :: string
  req_role :: string
  req_content :: "string option"
  new_id :: string
  now :: string

datatype response = R200 string int string | R400 | R404 | R500

text \<open>
  A handler runs on its own connection and gives up control at every \<^verbatim>\<open>await\<close>; other
  handlers run in between. \<open>pc\<close> names the statement a handler is waiting for:
  \<open>AtRollbackNotFound\<close> is the \<^verbatim>\<open>conn.rollback()\<close> of the branch that answers 404, inside the
  \<^verbatim>\<open>try\<close>; \<open>AtRollbackCatch\<close> is the \<^verbatim>\<open>conn.rollback()\<close> of the \<^verbatim>\<open>catch\<close> block. The writes of its
  transaction stay with the transaction until the commit: \<open>t_insert\<close> is the row it has
  inserted, \<open>t_touch\<close> the \<^verbatim>\<open>updated_at\<close> it has set. \<open>t_locked\<close> says that its locking read
  (\<^verbatim>\<open>FOR UPDATE\<close>) has been done; \<open>t_nextIdx\<close> is the variable \<^verbatim>\<open>nextIdx\<close>.

  \<open>t_isolation\<close> is the isolation level of the transaction once it is open. The handler
  opens it with \<^verbatim>\<open>conn.beginTransaction()\<close> and nothing else: no statement of the server sets
  an isolation level, for the transaction, the session or the pool, so the transaction
  runs at whatever level the session has (\<open>SessionLevel\<close>).
\<close>

datatype pc =
    AtBegin | AtSelectChat | AtRollbackNotFound | AtSelectMax | AtInsert | AtUpdate | AtCommit
  | AtRollbackCatch

datatype isolation = SessionLevel | Serializable

record txn =
  t_req :: request
  t_pc :: pc
  t_isolation :: "isolation option"
  t_locked :: bool
  t_nextIdx :: int
  t_insert :: "msg_row option"
  t_touch :: "string option"

record state =
  chats :: "(string \<times> chat_row) list"
  msgs :: "msg_row list"
  txns :: "(nat \<times> txn) list"
  responses :: "(nat \<times> string \<times> response) list"

text \<open>
  What happens next: a request arrives and \<^verbatim>\<open>pool.getConnection()\<close> gives it the connection
  \<open>k\<close>; a request arrives and \<^verbatim>\<open>pool.getConnection()\<close> rejects; the statement that the handler
  on \<open>k\<close> waits for completes; or it fails (the awaited promise rejects).
\<close>

datatype action = Arrive nat request | NoConnection nat request | Run nat | Throw nat

definition set_txn :: "state \<Rightarrow> nat \<Rightarrow> txn \<Rightarrow> state" where
  "set_txn s k t = s\<lparr>txns := map (\<lambda>(k', t'). if k' = k then (k', t) else (k', t')) (txns s)\<rparr>"

text \<open>
  The end of a handler whose \<^verbatim>\<open>conn.rollback()\<close> or \<^verbatim>\<open>conn.commit()\<close> has resolved: the writes
  of a transaction rolled back and its locks are dropped, the response is sent and the
  connection released.
\<close>

definition finish :: "state \<Rightarrow> nat \<Rightarrow> txn \<Rightarrow> response \<Rightarrow> state" where
  "finish s k t r =
     s\<lparr>txns := filter (\<lambda>(k', t'). k' \<noteq> k) (txns s),
       responses := responses s @ [(k, req_chat (t_req t), r)]\<rparr>"

text \<open>
  The end of a handler whose \<^verbatim>\<open>conn.rollback()\<close> in the \<^verbatim>\<open>catch\<close> block has rejected: the
  \<^verbatim>\<open>await\<close> throws inside the \<^verbatim>\<open>catch\<close>, so \<^verbatim>\<open>res.status(500)\<close> is not reached and the handler
  sends no response; \<^verbatim>\<open>finally\<close> releases the connection. A rollback rejects when the
  connection is lost, and the engine then ends the transaction without its writes.
\<close>

definition abandon :: "state \<Rightarrow> nat \<Rightarrow> state" where
  "abandon s k = s\<lparr>txns := filter (\<lambda>(k', t'). k' \<noteq> k) (txns s)\<rparr>"

text \<open>\<^verbatim>\<open>conn.commit()\<close>: the writes of the transaction reach the tables together.\<close>

definition touch :: "(string \<times> chat_row) list \<Rightarrow> string \<Rightarrow> string \<Rightarrow> (string \<times> chat_row) list" where
  "touch cs c ts = map (\<lambda>(c', row). if c' = c then (c', row\<lparr>chat_updated_at := ts\<rparr>) else (c', row)) cs"

definition apply_writes :: "state \<Rightarrow> txn \<Rightarrow> state" where
  "apply_writes s t =
     s\<lparr>msgs := msgs s @ (case t_insert t of None \<Rightarrow> [] | Some row \<Rightarrow> [row]),
       chats := (case t_touch t of None \<Rightarrow> chats s
                 | Some ts \<Rightarrow> touch (chats s) (req_chat (t_req t)) ts)\<rparr>"

text \<open>\<^verbatim>\<open>SELECT id FROM chats WHERE id = ? AND user_id = ?\<close> finds a row.\<close>

definition owned :: "(string \<times> chat_row) list \<Rightarrow> string \<Rightarrow> string \<Rightarrow> bool" where
  "owned cs c u = (case map_of cs c of None \<Rightarrow> False | Some row \<Rightarrow> chat_user row = u)"

text \<open>\<^verbatim>\<open>SELECT COALESCE(MAX(idx), -1) FROM messages WHERE chat_id = ?\<close>.\<close>

definition idxs :: "msg_row list \<Rightarrow> string \<Rightarrow> int list" where
  "idxs ms c = map msg_idx (filter (\<lambda>m. msg_chat m = c) ms)"

definition max_idx :: "msg_row list \<Rightarrow> string \<Rightarrow> int" where
  "max_idx ms c = (case idxs ms c of [] \<Rightarrow> - 1 | i # is \<Rightarrow> fold max is i)"

text \<open>
  The keys of \<^verbatim>\<open>messages\<close>: the primary key \<^verbatim>\<open>id\<close> and \<^verbatim>\<open>UNIQUE KEY uq_chat_idx (chat_id, idx)\<close>.
  An insert that meets a committed row with one of its keys fails; one that meets a row
  another transaction has inserted and not yet committed waits for that transaction.
\<close>

definition same_key :: "msg_row \<Rightarrow> msg_row \<Rightarrow> bool" where
  "same_key a b = (msg_id a = msg_id b \<or> (msg_chat a = msg_chat b \<and> msg_idx a = msg_idx b))"

definition key_taken :: "msg_row list \<Rightarrow> msg_row \<Rightarrow> bool" where
  "key_taken ms row = list_ex (same_key row) ms"

definition key_pending :: "state \<Rightarrow> nat \<Rightarrow> msg_row \<Rightarrow> bool" where
  "key_pending s k row =
     list_ex (\<lambda>(k', t'). k' \<noteq> k \<and> (case t_insert t' of None \<Rightarrow> False | Some r \<Rightarrow> same_key row r))
       (txns s)"

text \<open>
  Another transaction has done its locking read on the messages of the conversation and
  has not ended.
\<close>

definition locked_by_other :: "state \<Rightarrow> nat \<Rightarrow> string \<Rightarrow> bool" where
  "locked_by_other s k c =
     list_ex (\<lambda>(k', t'). k' \<noteq> k \<and> t_locked t' \<and> req_chat (t_req t') = c) (txns s)"

definition new_row :: "txn \<Rightarrow> msg_row" where
  "new_row t =
     \<lparr>msg_id = new_id (t_req t), msg_chat = req_chat (t_req t), msg_role = req_role (t_req t),
      msg_content = the (req_content (t_req t)), msg_idx = t_nextIdx t,
      msg_created_at = now (t_req t)\<rparr>"

text \<open>
  One step of the server. The result is \<open>None\<close> when the action cannot happen now: the
  connection is in use or idle, or the statement waits for a lock. How far the locking
  read of one transaction keeps another from its own is the storage engine's matter and
  not in the source, so it is the parameter \<open>exclusive\<close>: when it is set, a locking read
  waits while another transaction holds the lock on the same conversation; when it is not,
  only the keys of the table stand between two writers.

  The body is checked before \<^verbatim>\<open>pool.getConnection()\<close>, which is outside the \<^verbatim>\<open>try\<close>: when it
  rejects, the handler ends without a response. A statement inside the \<^verbatim>\<open>try\<close> that fails
  (also the \<^verbatim>\<open>conn.rollback()\<close> of the 404 branch, and an insert that meets a committed row
  with its key or no conversation for its foreign key) takes the handler to the
  \<^verbatim>\<open>conn.rollback()\<close> of the \<^verbatim>\<open>catch\<close> block; the response 404 or 500 is sent when the rollback
  has resolved.
\<close>

definition step :: "bool \<Rightarrow> state \<Rightarrow> action \<Rightarrow> state option" where
  "step exclusive s a =
     (case a of
        Arrive k req \<Rightarrow>
          if req_role req = [] \<or> req_content req = None
          then Some (s\<lparr>responses := responses s @ [(k, req_chat req, R400)]\<rparr>)
          else if map_of (txns s) k \<noteq> None then None
          else Some (s\<lparr>txns := txns s @
                 [(k, \<lparr>t_req = req, t_pc = AtBegin, t_isolation = None, t_locked = False,
                       t_nextIdx = 0, t_insert = None, t_touch = None\<rparr>)]\<rparr>)
      | NoConnection k req \<Rightarrow>
          if req_role req = [] \<or> req_content req = None
          then Some (s\<lparr>responses := responses s @ [(k, req_chat req, R400)]\<rparr>)
          else Some s
      | Throw k \<Rightarrow>
          (case map_of (txns s) k of
             None \<Rightarrow> None
           | Some t \<Rightarrow>
               if t_pc t = AtRollbackCatch then Some (abandon s k)
               else Some (set_txn s k (t\<lparr>t_pc := AtRollbackCatch\<rparr>)))
      | Run k \<Rightarrow>
          (case map_of (txns s) k of
             None \<Rightarrow> None
           | Some t \<Rightarrow>
               (case t_pc t of
                  AtBegin \<Rightarrow>
                    Some (set_txn s k (t\<lparr>t_pc := AtSelectChat, t_isolation := Some SessionLevel\<rparr>))
                | AtSelectChat \<Rightarrow>
                    if owned (chats s) (req_chat (t_req t)) (req_user (t_req t))
                    then Some (set_txn s k (t\<lparr>t_pc := AtSelectMax\<rparr>))
                    else Some (set_txn s k (t\<lparr>t_pc := AtRollbackNotFound\<rparr>))
                | AtRollbackNotFound \<Rightarrow> Some (finish s k t R404)
                | AtSelectMax \<Rightarrow>
                    if exclusive \<and> locked_by_other s k (req_chat (t_req t)) then None
                    else Some (set_txn s k
                           (t\<lparr>t_pc := AtInsert, t_locked := True,
                              t_nextIdx := max_idx (msgs s) (req_chat (t_req t)) + 1\<rparr>))
                | AtInsert \<Rightarrow>
                    if key_pending s k (new_row t) then None
                    else if key_taken (msgs s) (new_row t)
                            \<or> map_of (chats s) (req_chat (t_req t)) = None
                    then Some (set_txn s k (t\<lparr>t_pc := AtRollbackCatch\<rparr>))
                    else Some (set_txn s k (t\<lparr>t_pc := AtUpdate, t_insert := Some (new_row t)\<rparr>))
                | AtUpdate \<Rightarrow>
                    Some (set_txn s k (t\<lparr>t_pc := AtCommit, t_touch := Some (now (t_req t))\<rparr>))
                | AtCommit \<Rightarrow>
                    Some (finish (apply_writes s t) k t
                           (R200 (new_id (t_req t)) (t_nextIdx t) (now (t_req t))))
                | AtRollbackCatch \<Rightarrow> Some (finish s k t R500))))"

fun run :: "bool \<Rightarrow> state \<Rightarrow> action list \<Rightarrow> state option" where
  "run exclusive s [] = Some s"
| "run exclusive s (a # as) =
     (case step exclusive s a of None \<Rightarrow> None | Some s' \<Rightarrow> run exclusive s' as)"

text \<open>The server starts with its conversations and no message.\<close>

definition init :: "(string \<times> chat_row) list \<Rightarrow> state" where
  "init cs = \<lparr>chats = cs, msgs = [], txns = [], responses = []\<rparr>"

text \<open>
  \<^verbatim>\<open>GET /chats/:id\<close>: the messages of a conversation of the caller,
  \<^verbatim>\<open>ORDER BY idx ASC\<close>.
\<close>

definition getChat :: "state \<Rightarrow> string \<Rightarrow> string \<Rightarrow> response + msg_row list" where
  "getChat s u c =
     (if owned (chats s) c u then Inr (sort_key msg_idx (filter (\<lambda>m. msg_chat m = c) (msgs s)))
      else Inl R404)"

text \<open>The appends to a conversation that have succeeded: the responses with status 200.\<close>

definition is_ok :: "response \<Rightarrow> bool" where
  "is_ok r = (case r of R200 i n ts \<Rightarrow> True | _ \<Rightarrow> False)"

definition successes :: "state \<Rightarrow> string \<Rightarrow> nat" where
  "successes s c = length (filter (\<lambda>(k, c', r). c' = c \<and> is_ok r) (responses s))"


text \<open>
  The invariant of the server. Connections are distinct. For every conversation, the
  positions of its committed messages are distinct and are exactly the numbers below the
  count of its successful appends. A transaction that has read the maximum and not yet
  inserted holds a next position that is at most that count; one that holds an inserted
  row holds exactly that count, and it is past its insert. No two transactions hold an
  inserted row for the same conversation.
\<close>

definition txn_ok :: "state \<Rightarrow> txn \<Rightarrow> bool" where
  "txn_ok s t =
     (if t_insert t = None
      then t_pc t \<noteq> AtUpdate \<and> t_pc t \<noteq> AtCommit
           \<and> (t_pc t = AtInsert \<longrightarrow>
                 0 \<le> t_nextIdx t \<and> t_nextIdx t \<le> int (successes s (req_chat (t_req t))))
      else t_insert t = Some (new_row t)
           \<and> t_nextIdx t = int (successes s (req_chat (t_req t)))
           \<and> (t_pc t = AtUpdate \<or> t_pc t = AtCommit \<or> t_pc t = AtRollbackCatch))"

text \<open>
  What a transaction in flight looks like, whatever the tables hold: its request has
  passed the check of the body; it is never serializable, and it is open at the session's
  level from its first statement on; from the locking read to the commit it holds the
  lock; when it waits for the commit it has set \<^verbatim>\<open>updated_at\<close> to the timestamp of its
  message.
\<close>

definition txn_shape :: "txn \<Rightarrow> bool" where
  "txn_shape t =
     (req_role (t_req t) \<noteq> [] \<and> req_content (t_req t) \<noteq> None
      \<and> t_isolation t \<noteq> Some Serializable
      \<and> (t_pc t \<noteq> AtBegin \<and> t_pc t \<noteq> AtRollbackCatch \<longrightarrow> t_isolation t = Some SessionLevel)
      \<and> (t_pc t = AtInsert \<or> t_pc t = AtUpdate \<or> t_pc t = AtCommit \<longrightarrow> t_locked t)
      \<and> (t_pc t = AtCommit \<longrightarrow> t_touch t = Some (now (t_req t))))"

definition positions_ok :: "state \<Rightarrow> bool" where
  "positions_ok s =
     (\<forall>c. distinct (idxs (msgs s) c) \<and> set (idxs (msgs s) c) = {0..<int (successes s c)})"

definition pending_apart :: "(nat \<times> txn) list \<Rightarrow> bool" where
  "pending_apart ts =
     (\<forall>k t k' t'. (k, t) \<in> set ts \<and> (k', t') \<in> set ts \<and> k \<noteq> k'
        \<and> t_insert t \<noteq> None \<and> t_insert t' \<noteq> None
        \<longrightarrow> req_chat (t_req t) \<noteq> req_chat (t_req t'))"

definition ledger_inv :: "state \<Rightarrow> bool" where
  "ledger_inv s =
     (distinct (map fst (txns s)) \<and> positions_ok s
      \<and> (\<forall>k t. (k, t) \<in> set (txns s) \<longrightarrow> txn_ok s t \<and> txn_shape t)
      \<and> pending_apart (txns s))"



text \<open>Concrete requests, runs and states, for evaluating the server.\<close>

definition chats0 :: "(string \<times> chat_row) list" where
  "chats0 = [(''c'', \<lparr>chat_user = ''u'', chat_updated_at = ''t0''\<rparr>)]"

definition req_by :: "string \<Rightarrow> string \<Rightarrow> string \<Rightarrow> request" where
  "req_by u i ts = \<lparr>req_chat = ''c'', req_user = u, req_role = ''user'',
     req_content = Some ''hello'', new_id = i, now = ts\<rparr>"

definition interleaved :: "action list" where
  "interleaved =
     [Arrive 1 (req_by ''u'' ''m1'' ''t1''), Arrive 2 (req_by ''u'' ''m2'' ''t2''),
      Run 1, Run 2, Run 1, Run 2, Run 1, Run 2,
      Run 1, Run 1, Run 1, Run 2, Run 2,
      Arrive 2 (req_by ''u'' ''m3'' ''t3''), Run 2, Run 2, Run 2, Run 2, Run 2, Run 2]"

definition after_interleaved :: state where
  "after_interleaved =
     \<lparr>chats = [(''c'', \<lparr>chat_user = ''u'', chat_updated_at = ''t3''\<rparr>)],
      msgs = [\<lparr>msg_id = ''m1'', msg_chat = ''c'', msg_role = ''user'', msg_content = ''hello'',
                msg_idx = 0, msg_created_at = ''t1''\<rparr>,
              \<lparr>msg_id = ''m3'', msg_chat = ''c'', msg_role = ''user'', msg_content = ''hello'',
                msg_idx = 1, msg_created_at = ''t3''\<rparr>],
      txns = [],
      responses = [(1, ''c'', R200 ''m1'' 0 ''t1''), (2, ''c'', R500),
                   (2, ''c'', R200 ''m3'' 1 ''t3'')]\<rparr>"

definition txn_inserted :: txn where
  "txn_inserted =
     \<lparr>t_req = req_by ''u'' ''m1'' ''t1'', t_pc = AtUpdate, t_isolation = Some SessionLevel,
      t_locked = True, t_nextIdx = 0,
      t_insert = Some \<lparr>msg_id = ''m1'', msg_chat = ''c'', msg_role = ''user'',
                       msg_content = ''hello'', msg_idx = 0, msg_created_at = ''t1''\<rparr>,
      t_touch = None\<rparr>"

definition txn_stranger :: txn where
  "txn_stranger =
     \<lparr>t_req = req_by ''v'' ''m1'' ''t1'', t_pc = AtSelectChat, t_isolation = Some SessionLevel,
      t_locked = False, t_nextIdx = 0,
      t_insert = None, t_touch = None\<rparr>"

definition txn_committing :: txn where
  "txn_committing = txn_inserted\<lparr>t_pc := AtCommit, t_touch := Some ''t1''\<rparr>"

definition in_flight :: "txn \<Rightarrow> state" where
  "in_flight t = \<lparr>chats = chats0, msgs = [], txns = [(1, t)], responses = []\<rparr>"

definition txn_at_insert :: txn where
  "txn_at_insert =
     \<lparr>t_req = req_by ''u'' ''m2'' ''t2'', t_pc = AtInsert, t_isolation = Some SessionLevel,
      t_locked = True, t_nextIdx = 0,
      t_insert = None, t_touch = None\<rparr>"

definition overtaken :: state where
  "overtaken =
     \<lparr>chats = [(''c'', \<lparr>chat_user = ''u'', chat_updated_at = ''t1''\<rparr>)],
      msgs = [\<lparr>msg_id = ''m1'', msg_chat = ''c'', msg_role = ''user'', msg_content = ''hello'',
                msg_idx = 0, msg_created_at = ''t1''\<rparr>],
      txns = [(2, txn_at_insert)],
      responses = [(1, ''c'', R200 ''m1'' 0 ''t1'')]\<rparr>"







definition update_fails :: "action list" where
  "update_fails = [Arrive 1 (req_by ''u'' ''m1'' ''t1''), Run 1, Run 1, Run 1, Run 1, Throw 1]"

section \<open>Properties of the text helpers\<close>


lemma trimEnd_take: "trimEnd s = take (length s - length (takeWhile is_ws (rev s))) s"
proof -
  have "rev s = takeWhile is_ws (rev s) @ dropWhile is_ws (rev s)" by simp
  then have "s = rev (dropWhile is_ws (rev s)) @ rev (takeWhile is_ws (rev s))"
    by (metis rev_append rev_rev_ident)
  then show ?thesis unfolding trimEnd_def
    by (metis append_eq_conv_conj length_rev length_append add_diff_cancel_right')
qed

lemma sublist_trimStart: "sublist (trimStart s) s"
  by (simp add: trimStart_def)

lemma sublist_trimEnd: "sublist (trimEnd s) s"
  by (simp add: trimEnd_take)

lemma sublist_trim: "sublist (trim s) s"
  unfolding trim_def using sublist_trimEnd sublist_trimStart sublist_order.order_trans by blast

lemma trimStart_hd: "trimStart s \<noteq> [] \<Longrightarrow> \<not> is_ws (hd (trimStart s))"
  unfolding trimStart_def by (simp add: hd_dropWhile)

lemma trimEnd_last: "trimEnd s \<noteq> [] \<Longrightarrow> \<not> is_ws (last (trimEnd s))"
  unfolding trimEnd_def by (simp add: last_rev hd_dropWhile)

lemma trimEnd_hd: "trimEnd s \<noteq> [] \<Longrightarrow> hd (trimEnd s) = hd s"
  unfolding trimEnd_take by (metis hd_take take_eq_Nil not_gr_zero)

lemma trimmed_trim: "trimmed (trim s)"
  unfolding trimmed_def trim_def
  by (metis trimEnd_last trimEnd_hd trimStart_hd trimEnd_def dropWhile.simps(1) rev.simps(1))

lemma trimStart_id: "trimmed s \<Longrightarrow> trimStart s = s"
  unfolding trimmed_def trimStart_def by (cases s) auto

lemma trimEnd_id: "trimmed s \<Longrightarrow> trimEnd s = s"
  unfolding trimmed_def trimEnd_def by (cases s rule: rev_cases) auto

lemma trim_id: "trimmed s \<Longrightarrow> trim s = s"
  by (simp add: trim_def trimStart_id trimEnd_id)

lemma emit_run_small: "n < 3 \<Longrightarrow> emit_run n = replicate n nl"
  by (simp add: emit_run_def)

lemma no3_replicate: "no3 (replicate n nl @ s) \<Longrightarrow> n < 3"
proof (rule ccontr)
  assume a: "no3 (replicate n nl @ s)" and "\<not> n < 3"
  then obtain m where "n = 3 + m" by (metis le_add_diff_inverse not_less)
  then have "replicate n nl @ s = [nl, nl, nl] @ (replicate m nl @ s)"
    by (simp add: numeral_3_eq_3)
  then show False using a unfolding no3_def by (metis sublist_append_rightI)
qed

lemma no3_suffix: "no3 (xs @ ys) \<Longrightarrow> no3 ys"
  unfolding no3_def by (meson sublist_append)

lemma no3_sublist: "sublist xs ys \<Longrightarrow> no3 ys \<Longrightarrow> no3 xs"
  unfolding no3_def using sublist_order.order_trans by blast

lemma collapse_run_id: "no3 (replicate n nl @ s) \<Longrightarrow> collapse_run n s = replicate n nl @ s"
proof (induction s arbitrary: n)
  case Nil
  then show ?case using no3_replicate[of n "[]"] by (simp add: emit_run_small)
next
  case (Cons c cs)
  show ?case
  proof (cases "c = nl")
    case True
    have "replicate (Suc n) nl @ cs = replicate n nl @ c # cs"
      using True by (simp add: replicate_append_same)
    with Cons show ?thesis using True by simp
  next
    case False
    have n3: "n < 3" using Cons.prems no3_replicate by blast
    have "no3 (replicate 0 nl @ cs)" using Cons.prems no3_suffix[of "replicate n nl @ [c]" cs] by simp
    then have "collapse_run 0 cs = cs" using Cons.IH[of 0] by simp
    then show ?thesis using False n3 by (simp add: emit_run_small)
  qed
qed

lemma collapse_nl_id: "no3 s \<Longrightarrow> collapse_nl s = s"
  using collapse_run_id[of 0 s] by (simp add: collapse_nl_def)

lemma no3_emit_Cons: "c \<noteq> nl \<Longrightarrow> no3 r \<Longrightarrow> no3 (emit_run n @ c # r)"
proof -
  assume c: "c \<noteq> nl" and r: "no3 r"
  have "emit_run n = [] \<or> emit_run n = [nl] \<or> emit_run n = [nl, nl]"
  proof (cases "3 \<le> n")
    case True then show ?thesis by (simp add: emit_run_def)
  next
    case False
    then have "n = 0 \<or> n = 1 \<or> n = 2" by arith
    then show ?thesis by (auto simp: emit_run_def numeral_2_eq_2)
  qed
  then show ?thesis using c r unfolding no3_def
    by (auto simp: sublist_Cons_right)
qed

lemma no3_collapse_run: "no3 (collapse_run n s)"
proof (induction s arbitrary: n)
  case Nil
  have "length (emit_run n) < 3" by (simp add: emit_run_def)
  then show ?case unfolding no3_def using sublist_length_le by fastforce
next
  case (Cons c cs)
  then show ?case by (simp add: no3_emit_Cons)
qed

lemma no3_collapse_nl: "no3 (collapse_nl s)"
  by (simp add: collapse_nl_def no3_collapse_run)

lemma cr_free_collapse_run: "cr \<notin> set s \<Longrightarrow> cr \<notin> set (collapse_run n s)"
  by (induction s arbitrary: n) (auto simp: emit_run_def nl_def cr_def)

lemma normalizeText_props: "trimmed (normalizeText t) \<and> no3 (normalizeText t) \<and> cr \<notin> set (normalizeText t)"
proof -
  let ?c = "collapse_nl (filter (\<lambda>c. c \<noteq> cr) t)"
  have "cr \<notin> set ?c" unfolding collapse_nl_def by (rule cr_free_collapse_run) simp
  moreover have "set (trim ?c) \<subseteq> set ?c" using sublist_trim set_mono_sublist by blast
  ultimately have "cr \<notin> set (trim ?c)" by blast
  moreover have "no3 (trim ?c)" using no3_sublist[OF sublist_trim no3_collapse_nl] .
  ultimately show ?thesis unfolding normalizeText_def using trimmed_trim by blast
qed

lemma normalizeText_id: "trimmed s \<Longrightarrow> no3 s \<Longrightarrow> cr \<notin> set s \<Longrightarrow> normalizeText s = s"
proof -
  assume t: "trimmed s" and n: "no3 s" and c: "cr \<notin> set s"
  have "filter (\<lambda>c. c \<noteq> cr) s = s" using c by (auto simp: filter_id_conv)
  then show ?thesis unfolding normalizeText_def using n t by (simp add: collapse_nl_id trim_id)
qed

text \<open>\<^verbatim>\<open>normalizeText\<close> alone (carriage returns, runs of line breaks, trimming) is idempotent.\<close>

theorem normalizeText_idem: "normalizeText (normalizeText t) = normalizeText t"
  using normalizeText_props normalizeText_id by blast

declare sanitize_loop.simps [simp del]

lemma sanitize_loop_2: "sanitize_loop (Suc (Suc 0)) t = t"
  by (subst sanitize_loop.simps) simp

lemma sanitize_loop_1:
  "sanitize_loop (Suc 0) t = (if strippable t then drop_line t else t)"
  by (subst sanitize_loop.simps)
    (auto simp: sanitize_loop_2 strippable_def drop_line_def slice_after_nl_def)

lemma sanitize_loop_0:
  "sanitize_loop 0 t =
     (if strippable t then (if strippable (drop_line t) then drop_line (drop_line t) else drop_line t)
      else t)"
  by (subst sanitize_loop.simps)
    (auto simp: sanitize_loop_1 sanitize_loop_2 strippable_def drop_line_def slice_after_nl_def)

lemma sublist_drop_line: "sublist (drop_line t) t"
  by (simp add: drop_line_def)

lemma sublist_sanitize_loop_0: "sublist (sanitize_loop 0 t) t"
proof -
  have "sublist (drop_line (drop_line t)) t"
    using sublist_drop_line sublist_order.order_trans by blast
  then show ?thesis by (simp add: sanitize_loop_0 sublist_drop_line)
qed

lemma sublist_sanitizeAssistant: "sublist (sanitizeAssistant s) s"
  unfolding sanitizeAssistant_def
  using sublist_trim sublist_sanitize_loop_0 sublist_trimStart sublist_order.order_trans by blast

lemma trimmed_sanitizeAssistant: "trimmed (sanitizeAssistant s)"
  by (simp add: sanitizeAssistant_def trimmed_trim)

lemma cleaned_again: "cleaned (cleaned s) = sanitizeAssistant (cleaned s)"
proof -
  let ?p = "cleaned s"
  have p: "trimmed ?p \<and> no3 ?p \<and> cr \<notin> set ?p"
    unfolding cleaned_def by (rule normalizeText_props)
  have sub: "sublist (sanitizeAssistant ?p) ?p" by (rule sublist_sanitizeAssistant)
  have "no3 (sanitizeAssistant ?p)" using no3_sublist[OF sub] p by blast
  moreover have "cr \<notin> set (sanitizeAssistant ?p)" using set_mono_sublist[OF sub] p by blast
  ultimately have "normalizeText (sanitizeAssistant ?p) = sanitizeAssistant ?p"
    using normalizeText_id trimmed_sanitizeAssistant by blast
  then show ?thesis by (simp add: cleaned_def)
qed

lemma sanitizeAssistant_unstrippable:
  "trimmed p \<Longrightarrow> \<not> strippable p \<Longrightarrow> sanitizeAssistant p = p"
  by (simp add: sanitizeAssistant_def trimStart_id sanitize_loop_0 trim_id)

lemma collapse_run_split:
  "c \<noteq> nl \<Longrightarrow> collapse_run k (xs @ c # rest) = collapse_run k (xs @ [c]) @ collapse_run 0 rest"
  by (induction xs arbitrary: k) (simp_all add: emit_run_def)

lemma collapse_run_replicate: "collapse_run k (replicate n nl @ b) = collapse_run (k + n) b"
  by (induction n arbitrary: k) simp_all

lemma collapse_run_emit:
  "b = [] \<or> hd b \<noteq> nl \<Longrightarrow> collapse_run m b = emit_run m @ collapse_run 0 b"
  by (cases b) (auto simp: emit_run_def)

lemma collapse_nl_run:
  assumes a: "a = [] \<or> last a \<noteq> nl" and b: "b = [] \<or> hd b \<noteq> nl"
  shows "collapse_nl (a @ replicate n nl @ b) = collapse_nl a @ emit_run n @ collapse_nl b"
proof (cases a rule: rev_cases)
  case Nil
  then show ?thesis
    using collapse_run_replicate[of 0 n b] collapse_run_emit[OF b, of n]
    by (simp add: collapse_nl_def emit_run_def)
next
  case (snoc xs c)
  then have c: "c \<noteq> nl" using a by simp
  have "collapse_nl (a @ replicate n nl @ b) = collapse_run 0 (xs @ c # (replicate n nl @ b))"
    using snoc by (simp add: collapse_nl_def)
  also have "\<dots> = collapse_run 0 (xs @ [c]) @ collapse_run 0 (replicate n nl @ b)"
    by (rule collapse_run_split[OF c])
  also have "\<dots> = collapse_nl a @ emit_run n @ collapse_nl b"
    using snoc collapse_run_replicate[of 0 n b] collapse_run_emit[OF b, of n]
    by (simp add: collapse_nl_def)
  finally show ?thesis .
qed

text \<open>
  Blank lines and trimming. The pass applied on completion, \<open>cleaned\<close>, ends with
  \<open>normalizeText\<close>: every maximal run of three or more line breaks (so every run of three
  or more empty lines) becomes exactly two line breaks (one empty line), shorter runs stay
  as they are, no carriage return and no run of three line breaks is left, and the result
  has no white space at either end.
\<close>

theorem cleaned_collapses_and_trims:
  "((a = [] \<or> last a \<noteq> nl) \<and> (b = [] \<or> hd b \<noteq> nl) \<longrightarrow>
        collapse_nl (a @ replicate n nl @ b) =
          collapse_nl a @ (if 3 \<le> n then [nl, nl] else replicate n nl) @ collapse_nl b)
   \<and> no3 (cleaned s) \<and> cr \<notin> set (cleaned s) \<and> trimmed (cleaned s)"
proof -
  have "(a = [] \<or> last a \<noteq> nl) \<and> (b = [] \<or> hd b \<noteq> nl) \<longrightarrow>
        collapse_nl (a @ replicate n nl @ b) =
          collapse_nl a @ (if 3 \<le> n then [nl, nl] else replicate n nl) @ collapse_nl b"
    using collapse_nl_run[of a b n] by (simp add: emit_run_def)
  moreover have "no3 (cleaned s) \<and> cr \<notin> set (cleaned s) \<and> trimmed (cleaned s)"
    unfolding cleaned_def using normalizeText_props by blast
  ultimately show ?thesis by blast
qed

theorem cleaned_collapses_and_trims_witness:
  "cleaned ''  Antwort: 42\<newline>FORMAT: kurz\<newline>hello\<newline>\<newline>\<newline>\<newline>world  ''
     = ''hello\<newline>\<newline>world''
   \<and> collapse_nl (''a'' @ replicate 4 nl @ ''b'') = ''a'' @ [nl, nl] @ ''b''
   \<and> trimmed (cleaned ''  Antwort: 42\<newline>FORMAT: kurz\<newline>hello\<newline>\<newline>\<newline>\<newline>world  '')"
proof -
  note t = cleaned_collapses_and_trims
    [of "''a''" "''b''" 4
        "''  Antwort: 42\<newline>FORMAT: kurz\<newline>hello\<newline>\<newline>\<newline>\<newline>world  ''"]
  have h: "(''a'' = [] \<or> last ''a'' \<noteq> nl) \<and> (''b'' = [] \<or> hd ''b'' \<noteq> nl)"
    by (simp add: nl_def)
  have e1: "cleaned ''  Antwort: 42\<newline>FORMAT: kurz\<newline>hello\<newline>\<newline>\<newline>\<newline>world  ''
     = ''hello\<newline>\<newline>world''"
    by code_simp
  have e2: "collapse_nl ''a'' = ''a''" "collapse_nl ''b'' = ''b''"
    by code_simp+
  from t h e2 have "collapse_nl (''a'' @ replicate 4 nl @ ''b'') = ''a'' @ [nl, nl] @ ''b''"
    by simp
  moreover from t have
    "trimmed (cleaned ''  Antwort: 42\<newline>FORMAT: kurz\<newline>hello\<newline>\<newline>\<newline>\<newline>world  '')"
    by blast
  ultimately show ?thesis using e1 by blast
qed

text \<open>
  Claim C9: the pass strips meta prefixes from leading lines. The code misses the case of
  a leading meta line that no line break follows. For the text \<^verbatim>\<open>Antwort: 42\<close> the loop of
  \<^verbatim>\<open>sanitizeAssistant\<close> recognises the line (\<open>metaLine\<close> holds) and counts it as removed, but
  \<^verbatim>\<open>t.indexOf('\n')\<close> is \<open>-1\<close>, so \<^verbatim>\<open>t.slice(t.indexOf('\n') + 1)\<close> is \<^verbatim>\<open>t.slice(0)\<close> and the line
  stays. The same line followed by a line break is removed.
\<close>

theorem cleaned_keeps_sole_meta_line:
  "metaLine (trim (first_line (trimStart ''Antwort: 42'')))
   \<and> cleaned ''Antwort: 42'' = ''Antwort: 42''
   \<and> cleaned ''Antwort: 42\<newline>'' = []"
  by code_simp

text \<open>
  Claim C10 (amended). A second application of the pass does no further collapsing or
  trimming: it equals \<open>sanitizeAssistant\<close> of the once-normalized text, so it can only remove
  up to two further leading meta lines. The pass is idempotent on every input whose
  normalized text does not begin with a meta line that a line break follows.
\<close>

theorem cleaned_twice:
  "cleaned (cleaned s) = sanitizeAssistant (cleaned s) \<and>
   (\<not> strippable (cleaned s) \<longrightarrow> cleaned (cleaned s) = cleaned s)"
proof -
  have "trimmed (cleaned s)" unfolding cleaned_def using normalizeText_props by blast
  then show ?thesis using cleaned_again sanitizeAssistant_unstrippable by simp
qed

theorem cleaned_twice_witness:
  "\<not> strippable (cleaned ''  Antwort:\<newline> a\<newline>\<newline>\<newline>\<newline>b  '') \<and>
   cleaned (cleaned ''  Antwort:\<newline> a\<newline>\<newline>\<newline>\<newline>b  '') =
     cleaned ''  Antwort:\<newline> a\<newline>\<newline>\<newline>\<newline>b  ''"
proof -
  have h: "\<not> strippable (cleaned ''  Antwort:\<newline> a\<newline>\<newline>\<newline>\<newline>b  '')"
    by code_simp
  show ?thesis using h cleaned_twice by blast
qed

text \<open>
  Claim C10 as stated fails: with three leading meta lines the first application removes
  two and the second removes the third.
\<close>

theorem cleaned_not_idempotent:
  "cleaned (cleaned ''antwort:\<newline>format:\<newline>format:\<newline>x'') \<noteq>
     cleaned ''antwort:\<newline>format:\<newline>format:\<newline>x''"
  by code_simp

section \<open>Properties of the decoder\<close>


lemma process_lines_Inl_no_Done:
  "process_lines js ls acc = (evs, Inl acc') \<Longrightarrow> Done a \<notin> set evs"
proof (induction ls arbitrary: acc evs)
  case Nil
  then show ?case by simp
next
  case (Cons l ls)
  show ?case
  proof (cases "trim l = [] \<or> json_parse js (trim l) = None")
    case True
    then have "process_lines js (l # ls) acc = process_lines js ls acc"
      by (auto simp: Let_def)
    then show ?thesis using Cons by simp
  next
    case False
    then obtain obj where obj: "json_parse js (trim l) = Some obj" and ne: "trim l \<noteq> []" by auto
    show ?thesis
    proof (cases "piece_of obj")
      case None
      then show ?thesis using Cons.prems obj ne by (simp add: Let_def)
    next
      case (Some piece)
      define acc1 where "acc1 = (if truthy js piece then acc @ js_to_string js piece else acc)"
      define deltas where "deltas = (if truthy js piece then [Delta (js_to_string js piece) acc1] else [])"
      have nd: "Done a \<notin> set deltas" by (simp add: deltas_def)
      show ?thesis
      proof (cases "case get_prop obj ''done'' of None \<Rightarrow> False | Some d \<Rightarrow> truthy js d")
        case True
        then show ?thesis using Cons.prems obj ne Some by (simp add: Let_def)
      next
        case False
        obtain evs2 r2 where r2: "process_lines js ls acc1 = (evs2, r2)" by (cases "process_lines js ls acc1")
        have "process_lines js (l # ls) acc = (deltas @ evs2, r2)"
          using obj ne Some False r2 by (simp add: Let_def acc1_def deltas_def)
        then have "evs = deltas @ evs2" "r2 = Inl acc'" using Cons.prems by auto
        then show ?thesis using Cons.IH[of acc1 evs2] r2 nd by auto
      qed
    qed
  qed
qed

lemma feed_Inl_no_Done:
  "feed js chunks buf acc = (evs, Inl st) \<Longrightarrow> Done a \<notin> set evs"
proof (induction chunks arbitrary: buf acc evs)
  case Nil
  then show ?case by simp
next
  case (Cons c cs)
  obtain e1 r1 where p: "process_lines js (butlast (split_nl (buf @ c))) acc = (e1, r1)"
    by (cases "process_lines js (butlast (split_nl (buf @ c))) acc")
  show ?case
  proof (cases r1)
    case (Inl acc1)
    obtain e2 r2 where f: "feed js cs (last (split_nl (buf @ c))) acc1 = (e2, r2)"
      by (cases "feed js cs (last (split_nl (buf @ c))) acc1")
    have "feed js (c # cs) buf acc = (e1 @ e2, r2)" using p Inl f by (simp add: Let_def)
    then have "evs = e1 @ e2" "r2 = Inl st" using Cons.prems by auto
    then show ?thesis
      using Cons.IH[of "last (split_nl (buf @ c))" acc1 e2] f process_lines_Inl_no_Done[of js _ acc e1 acc1 a] p Inl
      by auto
  next
    case (Inr out)
    then show ?thesis using Cons.prems p by (simp add: Let_def)
  qed
qed




lemma feed_cases:
  "feed js (c # cs) buf acc =
     (case process_lines js (butlast (split_nl (buf @ c))) acc of
        (evs, Inr out) \<Rightarrow> (evs, Inr out)
      | (evs, Inl acc') \<Rightarrow>
          (case feed js cs (last (split_nl (buf @ c))) acc' of (evs', r) \<Rightarrow> (evs @ evs', r)))"
  by (simp add: Let_def split: prod.splits sum.splits)

text \<open>
  Claim C6. Fed the two chunks of the claim, the decoder calls \<^verbatim>\<open>onDelta\<close> with "ab", then
  with "cd", then \<^verbatim>\<open>onDone\<close>, and returns; the record split across the chunk boundary is
  reassembled. The hypotheses say what \<^verbatim>\<open>JSON.parse\<close> yields on the three complete lines; the
  result does not depend on how the stream would have gone on.
\<close>

theorem split_records_reassemble:
  assumes "json_parse js ''{\"message\":{\"content\":\"ab\"}}'' =
             Some (JObj [(''message'', JObj [(''content'', JStr ''ab'')])])"
    and "json_parse js ''{\"message\":{\"content\":\"cd\"},\"done\":false}'' =
             Some (JObj [(''message'', JObj [(''content'', JStr ''cd'')]), (''done'', JBool False)])"
    and "json_parse js ''{\"done\":true}'' = Some (JObj [(''done'', JBool True)])"
  shows "read_loop js
           [''{\"message\":{\"content\":\"ab\"}}\<newline>{\"mess'',
            ''age\":{\"content\":\"cd\"},\"done\":false}\<newline>{\"done\":true}\<newline>'']
           ending =
         ([Delta ''ab'' ''ab'', Delta ''cd'' ''abcd'', Done ''abcd''], Returned ''abcd'')"
proof -
  have s1: "split_nl ''{\"message\":{\"content\":\"ab\"}}\<newline>{\"mess'' =
              [''{\"message\":{\"content\":\"ab\"}}'', ''{\"mess'']"
    by code_simp
  have s2: "split_nl ''{\"message\":{\"content\":\"cd\"},\"done\":false}\<newline>{\"done\":true}\<newline>'' =
              [''{\"message\":{\"content\":\"cd\"},\"done\":false}'', ''{\"done\":true}'', []]"
    by code_simp
  have t1: "trim ''{\"message\":{\"content\":\"ab\"}}'' = ''{\"message\":{\"content\":\"ab\"}}''"
    by code_simp
  have t2: "trim ''{\"message\":{\"content\":\"cd\"},\"done\":false}'' = ''{\"message\":{\"content\":\"cd\"},\"done\":false}''"
    by code_simp
  have t3: "trim ''{\"done\":true}'' = ''{\"done\":true}''"
    by code_simp
  have p1: "process_lines js [''{\"message\":{\"content\":\"ab\"}}''] [] = ([Delta ''ab'' ''ab''], Inl ''ab'')"
    using assms(1) by (simp add: t1 Let_def piece_of_def nullish_def)
  have p2: "process_lines js [''{\"message\":{\"content\":\"cd\"},\"done\":false}'', ''{\"done\":true}''] ''ab'' =
              ([Delta ''cd'' ''abcd'', Done ''abcd''], Inr (Returned ''abcd''))"
    using assms(2,3) by (simp add: t2 t3 Let_def piece_of_def nullish_def)
  have "feed js
           [''{\"message\":{\"content\":\"ab\"}}\<newline>{\"mess'',
            ''age\":{\"content\":\"cd\"},\"done\":false}\<newline>{\"done\":true}\<newline>''] [] [] =
         ([Delta ''ab'' ''ab'', Delta ''cd'' ''abcd'', Done ''abcd''], Inr (Returned ''abcd''))"
    by (simp add: feed_cases s1 s2 p1 p2 del: feed.simps split_nl.simps process_lines.simps)
  then show ?thesis by (simp add: read_loop_def)
qed

theorem split_records_reassemble_witness:
  "read_loop std_js
           [''{\"message\":{\"content\":\"ab\"}}\<newline>{\"mess'',
            ''age\":{\"content\":\"cd\"},\"done\":false}\<newline>{\"done\":true}\<newline>'']
           Eof =
         ([Delta ''ab'' ''ab'', Delta ''cd'' ''abcd'', Done ''abcd''], Returned ''abcd'')"
proof -
  have h1: "json_parse std_js ''{\"message\":{\"content\":\"ab\"}}'' =
             Some (JObj [(''message'', JObj [(''content'', JStr ''ab'')])])"
    by code_simp
  have h2: "json_parse std_js ''{\"message\":{\"content\":\"cd\"},\"done\":false}'' =
             Some (JObj [(''message'', JObj [(''content'', JStr ''cd'')]), (''done'', JBool False)])"
    by code_simp
  have h3: "json_parse std_js ''{\"done\":true}'' = Some (JObj [(''done'', JBool True)])"
    by code_simp
  show ?thesis by (rule split_records_reassemble[OF h1 h2 h3])
qed

lemma tail_piece_Some:
  "tail_piece js buf = Some p \<longleftrightarrow>
     trim buf \<noteq> [] \<and>
     (\<exists>obj piece. json_parse js (trim buf) = Some obj \<and> piece_of obj = Some piece \<and>
        truthy js piece \<and> p = js_to_string js piece)"
  by (auto simp: tail_piece_def Let_def split: option.splits if_splits)

text \<open>
  Claim C7 (amended). When the stream ends after chunks in which no terminal record was
  seen (the loop ran to its end with buffer \<open>buf\<close> and text \<open>acc\<close>, having made the calls
  \<open>evs\<close>, none of them \<^verbatim>\<open>onDone\<close>), the decoder parses the trimmed rest of the buffer; when
  that is a record carrying a truthy piece it calls \<^verbatim>\<open>onDelta\<close> once more; and in every case
  it then calls \<^verbatim>\<open>onDone\<close> itself with the accumulated text and returns it: the done event is
  emitted by the decoder, not left to the caller.
\<close>

theorem stream_end_completes:
  assumes "feed js chunks [] [] = (evs, Inl (buf, acc))"
  shows "(\<forall>a. Done a \<notin> set evs)
     \<and> (tail_piece js buf = None \<longrightarrow>
          read_loop js chunks Eof = (evs @ [Done acc], Returned acc))
     \<and> (tail_piece js buf = Some p \<longrightarrow>
          read_loop js chunks Eof = (evs @ [Delta p (acc @ p), Done (acc @ p)], Returned (acc @ p)))
     \<and> (tail_piece js buf = Some p \<longleftrightarrow>
          trim buf \<noteq> [] \<and>
          (\<exists>obj piece. json_parse js (trim buf) = Some obj \<and> piece_of obj = Some piece \<and>
             truthy js piece \<and> p = js_to_string js piece))"
proof -
  have "\<forall>a. Done a \<notin> set evs" using feed_Inl_no_Done[OF assms] by blast
  moreover have "tail_piece js buf = None \<longrightarrow>
          read_loop js chunks Eof = (evs @ [Done acc], Returned acc)"
    using assms by (simp add: read_loop_def tail_flush_def)
  moreover have "tail_piece js buf = Some p \<longrightarrow>
          read_loop js chunks Eof = (evs @ [Delta p (acc @ p), Done (acc @ p)], Returned (acc @ p))"
    using assms by (simp add: read_loop_def tail_flush_def)
  ultimately show ?thesis using tail_piece_Some[of js buf p] by blast
qed

theorem stream_end_completes_witness:
  "feed std_js [''{\"message\":{\"content\":\"ab\"}}\<newline>{\"response\":\"cd\"}''] [] [] =
     ([Delta ''ab'' ''ab''], Inl (''{\"response\":\"cd\"}'', ''ab''))
   \<and> tail_piece std_js ''{\"response\":\"cd\"}'' = Some ''cd''
   \<and> read_loop std_js [''{\"message\":{\"content\":\"ab\"}}\<newline>{\"response\":\"cd\"}''] Eof =
     ([Delta ''ab'' ''ab'', Delta ''cd'' ''abcd'', Done ''abcd''], Returned ''abcd'')"
proof -
  have h: "feed std_js [''{\"message\":{\"content\":\"ab\"}}\<newline>{\"response\":\"cd\"}''] [] [] =
     ([Delta ''ab'' ''ab''], Inl (''{\"response\":\"cd\"}'', ''ab''))"
    by code_simp
  have t: "tail_piece std_js ''{\"response\":\"cd\"}'' = Some ''cd''"
    by code_simp
  show ?thesis using h t stream_end_completes[OF h, of "''cd''"] by simp
qed

text \<open>
  Claim C7 as stated fails: a stream that ends with an unterminated record and no terminal
  record still ends with a done event.
\<close>

theorem stream_end_emits_done:
  "feed std_js [''{\"message\":{\"content\":\"ab\"}}''] [] [] =
     ([], Inl (''{\"message\":{\"content\":\"ab\"}}'', []))
   \<and> read_loop std_js [''{\"message\":{\"content\":\"ab\"}}''] Eof =
     ([Delta ''ab'' ''ab'', Done ''ab''], Returned ''ab'')"
  by code_simp

text \<open>
  A line that \<^verbatim>\<open>JSON.parse\<close> rejects is skipped: the loop goes on with the next line, the
  accumulated text unchanged and no callback made for it.
\<close>

theorem unparseable_line_skipped:
  "json_parse js (trim l) = None \<Longrightarrow> process_lines js (l # rest) acc = process_lines js rest acc"
  by (simp add: Let_def)

theorem unparseable_line_skipped_witness:
  "json_parse std_js (trim ''keep-alive'') = None
   \<and> process_lines std_js [''keep-alive'', ''{\"response\":\"ab\"}''] [] =
       process_lines std_js [''{\"response\":\"ab\"}''] []
   \<and> process_lines std_js [''{\"response\":\"ab\"}''] [] = ([Delta ''ab'' ''ab''], Inl ''ab'')"
proof -
  have h: "json_parse std_js (trim ''keep-alive'') = None" by code_simp
  have e: "process_lines std_js [''{\"response\":\"ab\"}''] [] = ([Delta ''ab'' ''ab''], Inl ''ab'')"
    by code_simp
  show ?thesis using h e unparseable_line_skipped[OF h] by simp
qed

section \<open>Properties of the session\<close>


declare continuation.simps [simp del]

lemma continuation_0:
  "continuation js t env 0 =
     (if hasOpenCodeFence (text_at_check env 0)
      then requests (repair_payload t (slice_last 800 (text_at_check env 0)))
      else [])"
proof -
  have one: "continuation js t env (Suc 0) = []"
    by (subst continuation.simps) simp
  show ?thesis
    by (subst continuation.simps) (simp add: one Let_def split: outcome.splits)
qed

lemma requests_repair:
  "sendModel t \<noteq> [] \<Longrightarrow> requests (repair_payload t x) = [Generate (repair_payload t x)]"
  by (simp add: requests_def repair_payload_def)

lemma requests_main:
  "sendModel t \<noteq> [] \<Longrightarrow> requests (main_payload t) = [Generate (main_payload t)]"
  by (simp add: requests_def main_payload_def Let_def)

lemma filter_append_requests: "filter is_append (requests p) = []"
  by (simp add: requests_def is_append_def)

lemma filter_ledger_requests: "filter is_ledger_call (requests p) = []"
  by (simp add: requests_def is_ledger_call_def)

lemma filter_append_continuation: "filter is_append (continuation js t env 0) = []"
  by (simp add: continuation_0 filter_append_requests)

lemma filter_ledger_continuation: "filter is_ledger_call (continuation js t env 0) = []"
  by (simp add: continuation_0 filter_ledger_requests)

lemma filter_generate_persist: "filter is_generate (persist t env chat) = []"
  by (simp add: persist_def is_generate_def Let_def)

lemma chat_aborted:
  assumes "feed js chunks [] [] = (evs, Inl st)"
  shows "\<exists>e. snd (chatWithOllama js p (Response True (Some (chunks, ReadFail AbortError)))) = Threw e"
  using assms by (cases st) (simp add: chatWithOllama_def read_loop_def)


lemma chat_aborted_run:
  assumes "feed js chunks [] [] = (evs, Inl st)" and "model p \<noteq> []" and "messages p \<noteq> []"
  shows "chatWithOllama js p (Response True (Some (chunks, ReadFail AbortError))) = (evs, Threw AbortError)"
  using assms by (cases st) (simp add: chatWithOllama_def read_loop_def)

lemma main_payload_valid: "sendModel t \<noteq> [] \<Longrightarrow> model (main_payload t) \<noteq> [] \<and> messages (main_payload t) \<noteq> []"
  by (simp add: main_payload_def Let_def)

text \<open>
  Claim C4. When the first stream has delivered chunks whose complete lines held no
  terminal record (the calls \<open>evs\<close>, delta events only) and the next read is rejected
  because the user aborted, \<^verbatim>\<open>chatWithOllama\<close> throws, \<^verbatim>\<open>onDone\<close> never runs, and the turn makes
  no \<^verbatim>\<open>appendMessage\<close> call at all. (An abort during a later repair request is outside the
  claim: the turn has had its done event by then.)
\<close>

theorem aborted_turn_appends_nothing:
  assumes "main_fetch env = Response True (Some (chunks, ReadFail AbortError))"
    and "feed js chunks [] [] = (evs, Inl st)"
  shows "filter is_append (calls (sendChat js t env)) = []
     \<and> (sendModel t \<noteq> [] \<longrightarrow>
          chatWithOllama js (main_payload t) (main_fetch env) = (evs, Threw AbortError))"
proof -
  obtain e where e: "snd (chatWithOllama js (main_payload t) (main_fetch env)) = Threw e"
    using chat_aborted[OF assms(2)] assms(1) by metis
  have "filter is_append (calls (sendChat js t env)) = []"
    unfolding sendChat_def using e
    by (simp add: Let_def is_append_def filter_append_requests split: sum.splits)
  then show ?thesis
    using chat_aborted_run[OF assms(2)] main_payload_valid[of t] assms(1) by simp
qed

theorem aborted_turn_appends_nothing_witness:
  "main_fetch env_aborted =
     Response True (Some ([''{\"message\":{\"content\":\"ab\"}}\<newline>''], ReadFail AbortError))
   \<and> feed std_js [''{\"message\":{\"content\":\"ab\"}}\<newline>''] [] [] = ([Delta ''ab'' ''ab''], Inl ([], ''ab''))
   \<and> filter is_append (calls (sendChat std_js turn1 env_aborted)) = []
   \<and> chatWithOllama std_js (main_payload turn1) (main_fetch env_aborted) =
       ([Delta ''ab'' ''ab''], Threw AbortError)"
proof -
  have h1: "main_fetch env_aborted =
     Response True (Some ([''{\"message\":{\"content\":\"ab\"}}\<newline>''], ReadFail AbortError))"
    by (simp add: env_aborted_def env1_def)
  have h2: "feed std_js [''{\"message\":{\"content\":\"ab\"}}\<newline>''] [] [] =
     ([Delta ''ab'' ''ab''], Inl ([], ''ab''))"
    by code_simp
  have m: "sendModel turn1 \<noteq> []" by (simp add: turn1_def)
  show ?thesis using h1 h2 m aborted_turn_appends_nothing[OF h1 h2, of turn1] by simp
qed

lemma persist_incognito: "incognito t \<Longrightarrow> persist t env chat = []"
  by (simp add: persist_def)

lemma persist_ledger:
  assumes "\<not> incognito t" and "cid \<noteq> []"
  shows "filter is_ledger_call (persist t env (Some cid)) =
     AppendMessage cid ''user'' (trim (prompt t)) #
     (if appendUser_ok env then
        AppendMessage cid ''assistant'' (text_at_final env) #
        (if appendAssistant_ok env then
           [UpdateChat cid (take 60 (if trim (prompt t) = [] then ''Chat'' else trim (prompt t)))
              (sendModel t)]
         else [])
      else [])"
  using assms by (simp add: persist_def truthy_id_def is_ledger_call_def Let_def)

text \<open>
  Claim C5 (amended). An ephemeral turn makes no call that creates a conversation, appends
  a message or updates a conversation. A completed turn that is not ephemeral and whose
  conversation has a non-empty identifier makes exactly these calls to the ledger, in this
  order: the creation of the conversation when there was none; the \<^verbatim>\<open>appendMessage\<close> call for
  the user message; when that call resolves, the \<^verbatim>\<open>appendMessage\<close> call for the assistant
  message; and when that resolves too, the update whose title is the first 60 code units
  of the trimmed user text ("Chat" when that is empty). A call that throws ends the
  persistence there, and no error is set for it.
\<close>

theorem ephemeral_never_persists_else_two_appends:
  "(incognito t \<longrightarrow> filter is_ledger_call (calls (sendChat js t env)) = [])
   \<and> (\<not> incognito t \<and> completes js t env \<and> conversation t env = Some cid \<and> cid \<noteq> [] \<longrightarrow>
        filter is_ledger_call (calls (sendChat js t env)) =
          (if truthy_id (currentChatId t) then [] else [CreateChat (sendModel t)]) @
          AppendMessage cid ''user'' (trim (prompt t)) #
          (if appendUser_ok env then
             AppendMessage cid ''assistant'' (text_at_final env) #
             (if appendAssistant_ok env then
                [UpdateChat cid (take 60 (if trim (prompt t) = [] then ''Chat'' else trim (prompt t)))
                   (sendModel t)]
              else [])
           else [])
        \<and> error (sendChat js t env) = NoError)"
proof -
  have a: "incognito t \<longrightarrow> filter is_ledger_call (calls (sendChat js t env)) = []"
    unfolding sendChat_def
    by (simp add: Let_def persist_incognito filter_ledger_requests filter_ledger_continuation
        split: sum.splits outcome.splits)
  have b: "filter is_ledger_call (calls (sendChat js t env)) =
          (if truthy_id (currentChatId t) then [] else [CreateChat (sendModel t)]) @
          filter is_ledger_call (persist t env (Some cid))
        \<and> error (sendChat js t env) = NoError"
    if h: "\<not> incognito t" "completes js t env" "conversation t env = Some cid" "cid \<noteq> []"
  proof -
    obtain acc where r: "snd (chatWithOllama js (main_payload t) (main_fetch env)) = Returned acc"
      using h(2) by (auto simp: completes_def split: outcome.splits)
    have i: "\<not> (trim (prompt t) = [] \<and> attachedDoc t = None)" "sendModel t \<noteq> []"
      using h(2) by (auto simp: completes_def)
    show ?thesis
    proof (cases "truthy_id (currentChatId t)")
      case True
      then have c: "currentChatId t = Some cid" using h(3) by (simp add: conversation_def)
      show ?thesis unfolding sendChat_def using i r True c h
        by (auto simp: Let_def filter_ledger_requests filter_ledger_continuation)
    next
      case False
      then have c: "createChat_result env = Inr cid"
        using h(3) by (auto simp: conversation_def split: sum.splits)
      show ?thesis unfolding sendChat_def using i r False c h
        by (auto simp: Let_def filter_ledger_requests filter_ledger_continuation
            is_ledger_call_def)
    qed
  qed
  show ?thesis using a b persist_ledger[of t cid env] by simp
qed

theorem ephemeral_never_persists_else_two_appends_witness:
  "incognito turn_incognito
   \<and> filter is_ledger_call (calls (sendChat std_js turn_incognito env_unflushed)) = []
   \<and> \<not> incognito turn1 \<and> completes std_js turn1 env_unflushed
   \<and> conversation turn1 env_unflushed = Some ''c1''
   \<and> filter is_ledger_call (calls (sendChat std_js turn1 env_unflushed)) =
       [CreateChat ''m'', AppendMessage ''c1'' ''user'' ''hi'',
        AppendMessage ''c1'' ''assistant'' [], UpdateChat ''c1'' ''hi'' ''m'']
   \<and> completes std_js turn1 env_second_fails
   \<and> filter is_ledger_call (calls (sendChat std_js turn1 env_second_fails)) =
       [CreateChat ''m'', AppendMessage ''c1'' ''user'' ''hi'',
        AppendMessage ''c1'' ''assistant'' []]
   \<and> error (sendChat std_js turn1 env_second_fails) = NoError"
proof -
  have i: "incognito turn_incognito" by (simp add: turn_incognito_def)
  have n: "\<not> incognito turn1" by (simp add: turn1_def)
  have c: "completes std_js turn1 env_unflushed" "completes std_js turn1 env_second_fails"
    by code_simp+
  have v: "conversation turn1 env_unflushed = Some ''c1''"
    "conversation turn1 env_second_fails = Some ''c1''"
    by code_simp+
  have ok: "appendUser_ok env_unflushed" "appendAssistant_ok env_unflushed"
    "appendUser_ok env_second_fails" "\<not> appendAssistant_ok env_second_fails"
    by (simp_all add: env_unflushed_def env_second_fails_def env1_def)
  have f: "truthy_id (currentChatId turn1) = False" "sendModel turn1 = ''m''"
    "trim (prompt turn1) = ''hi''" "text_at_final env_unflushed = []"
    "text_at_final env_second_fails = []"
    by code_simp+
  show ?thesis
    using i n c v ok
      ephemeral_never_persists_else_two_appends[of turn_incognito std_js env_unflushed "''c1''"]
      ephemeral_never_persists_else_two_appends[of turn1 std_js env_unflushed "''c1''"]
      ephemeral_never_persists_else_two_appends[of turn1 std_js env_second_fails "''c1''"]
    by (simp add: f)
qed

text \<open>
  Claim C5 as stated fails: when the first \<^verbatim>\<open>appendMessage\<close> call throws, the \<^verbatim>\<open>catch\<close> ends the
  persistence block, and the completed turn has made one append call, not two.
\<close>

theorem one_append_when_first_fails:
  "\<not> incognito turn1 \<and> completes std_js turn1 env_append_fails
   \<and> filter is_append (calls (sendChat std_js turn1 env_append_fails)) =
       [AppendMessage ''c1'' ''user'' ''hi'']"
  by code_simp

lemma slice_last_suffix: "suffix (slice_last n s) s \<and> length (slice_last n s) = min n (length s)"
  by (auto simp: slice_last_def suffix_drop)

text \<open>
  Claim C8. In a completed turn whose text has an odd number of fence markers when the
  loop condition is evaluated, the calls are: the creation of the conversation (if any),
  the first request, exactly one repair request whose user message holds the last 800
  code units of that text, and then the persistence calls. This holds whatever the repair
  request answers (also when it throws) and whatever the text is afterwards (also when its
  count is still odd); no error is set.
\<close>

theorem one_repair_request:
  assumes "completes js t env" and "hasOpenCodeFence (text_at_check env 0)"
  shows "calls (sendChat js t env) =
      (if incognito t \<or> truthy_id (currentChatId t) then [] else [CreateChat (sendModel t)])
      @ [Generate (main_payload t),
         Generate (repair_payload t (slice_last 800 (text_at_check env 0)))]
      @ persist t env (conversation t env)
    \<and> error (sendChat js t env) = NoError
    \<and> messages (repair_payload t (slice_last 800 (text_at_check env 0))) =
        [(''system'', systemText t),
         (''user'', repair_intro @ slice_last 800 (text_at_check env 0) @ ''\<newline>>>>'')]
    \<and> suffix (slice_last 800 (text_at_check env 0)) (text_at_check env 0)
    \<and> length (slice_last 800 (text_at_check env 0)) = min 800 (length (text_at_check env 0))"
proof -
  obtain acc where r: "snd (chatWithOllama js (main_payload t) (main_fetch env)) = Returned acc"
    using assms(1) by (auto simp: completes_def split: outcome.splits)
  have i: "\<not> (trim (prompt t) = [] \<and> attachedDoc t = None)" "sendModel t \<noteq> []"
    "incognito t \<or> conversation t env \<noteq> None"
    using assms(1) by (auto simp: completes_def)
  have cont: "continuation js t env 0 =
      [Generate (repair_payload t (slice_last 800 (text_at_check env 0)))]"
    using assms(2) i(2) by (simp add: continuation_0 requests_repair)
  have main: "requests (main_payload t) = [Generate (main_payload t)]"
    using i(2) by (rule requests_main)
  have c: "calls (sendChat js t env) =
      (if incognito t \<or> truthy_id (currentChatId t) then [] else [CreateChat (sendModel t)])
      @ [Generate (main_payload t),
         Generate (repair_payload t (slice_last 800 (text_at_check env 0)))]
      @ persist t env (conversation t env)
    \<and> error (sendChat js t env) = NoError"
  proof (cases "incognito t")
    case True
    then show ?thesis unfolding sendChat_def using i r
      by (simp add: Let_def cont main persist_incognito)
  next
    case False
    show ?thesis
    proof (cases "truthy_id (currentChatId t)")
      case True
      then show ?thesis unfolding sendChat_def using i r False
        by (simp add: Let_def cont main conversation_def)
    next
      case nt: False
      then obtain cid where "createChat_result env = Inr cid"
        using i(3) False by (auto simp: conversation_def split: sum.splits)
      then show ?thesis unfolding sendChat_def using i r False nt
        by (simp add: Let_def cont main conversation_def)
    qed
  qed
  show ?thesis using c slice_last_suffix[of 800 "text_at_check env 0"]
    by (simp add: repair_payload_def)
qed

theorem one_repair_request_witness:
  "completes std_js turn1 env_repaired
   \<and> hasOpenCodeFence (text_at_check env_repaired 0)
   \<and> hasOpenCodeFence (text_at_check env_repaired 1)
   \<and> filter is_generate (calls (sendChat std_js turn1 env_repaired)) =
       [Generate (main_payload turn1), Generate (repair_payload turn1 ''```a'')]
   \<and> error (sendChat std_js turn1 env_repaired) = NoError"
proof -
  have c: "completes std_js turn1 env_repaired" by code_simp
  have h: "hasOpenCodeFence (text_at_check env_repaired 0)" by code_simp
  have h1: "hasOpenCodeFence (text_at_check env_repaired 1)" by code_simp
  have s: "slice_last 800 (text_at_check env_repaired 0) = ''```a''" by code_simp
  have p: "\<not> incognito turn1" "\<not> truthy_id (currentChatId turn1)" by code_simp+
  show ?thesis
    using c h h1 one_repair_request[OF c h, of ] p
    by (simp add: s is_generate_def filter_generate_persist)
qed

section \<open>Properties of the ledger\<close>


lemma inv_init: "ledger_inv (init cs)"
  by (simp add: ledger_inv_def init_def positions_ok_def pending_apart_def idxs_def successes_def)

lemma successes_set_txn [simp]: "successes (set_txn s k t) c = successes s c"
  by (simp add: successes_def set_txn_def)

lemma msgs_set_txn [simp]: "msgs (set_txn s k t) = msgs s"
  by (simp add: set_txn_def)

lemma chats_set_txn [simp]: "chats (set_txn s k t) = chats s"
  by (simp add: set_txn_def)

lemma responses_set_txn [simp]: "responses (set_txn s k t) = responses s"
  by (simp add: set_txn_def)

lemma positions_ok_set_txn [simp]: "positions_ok (set_txn s k t) = positions_ok s"
  by (simp add: positions_ok_def)

lemma txn_ok_successes:
  "successes s' (req_chat (t_req t)) = successes s (req_chat (t_req t)) \<Longrightarrow>
     txn_ok s' t = txn_ok s t"
  by (simp add: txn_ok_def)

lemma txn_ok_set_txn [simp]: "txn_ok (set_txn s k t) t' = txn_ok s t'"
  by (rule txn_ok_successes) simp

lemma fst_set_txn [simp]: "map fst (txns (set_txn s k t)) = map fst (txns s)"
  by (auto simp: set_txn_def)

lemma set_txns_set_txn:
  "(k', t') \<in> set (txns (set_txn s k t)) \<Longrightarrow>
     (k' = k \<and> t' = t) \<or> (k' \<noteq> k \<and> (k', t') \<in> set (txns s))"
  by (auto simp: set_txn_def split: if_splits)

lemma inv_set_txn:
  assumes i: "ledger_inv s" and ok: "txn_ok s t'" and sh: "txn_shape t'"
    and ap: "t_insert t' \<noteq> None \<Longrightarrow>
       \<forall>k2 t2. (k2, t2) \<in> set (txns s) \<and> k2 \<noteq> k \<and> t_insert t2 \<noteq> None
         \<longrightarrow> req_chat (t_req t2) \<noteq> req_chat (t_req t')"
  shows "ledger_inv (set_txn s k t')"
proof -
  have d: "distinct (map fst (txns (set_txn s k t')))" using i by (simp add: ledger_inv_def)
  have p: "positions_ok (set_txn s k t')" using i by (simp add: ledger_inv_def)
  have o: "\<forall>k2 t2. (k2, t2) \<in> set (txns (set_txn s k t')) \<longrightarrow>
      txn_ok (set_txn s k t') t2 \<and> txn_shape t2"
    using i ok sh set_txns_set_txn[of _ _ s k t'] by (auto simp: ledger_inv_def)
  have a: "pending_apart (txns (set_txn s k t'))"
    unfolding pending_apart_def
  proof (intro allI impI)
    fix k1 t1 k2 t2
    assume h: "(k1, t1) \<in> set (txns (set_txn s k t')) \<and> (k2, t2) \<in> set (txns (set_txn s k t'))
       \<and> k1 \<noteq> k2 \<and> t_insert t1 \<noteq> None \<and> t_insert t2 \<noteq> None"
    have c1: "(k1 = k \<and> t1 = t') \<or> (k1 \<noteq> k \<and> (k1, t1) \<in> set (txns s))"
      using h set_txns_set_txn by blast
    have c2: "(k2 = k \<and> t2 = t') \<or> (k2 \<noteq> k \<and> (k2, t2) \<in> set (txns s))"
      using h set_txns_set_txn by blast
    have old: "pending_apart (txns s)" using i by (simp add: ledger_inv_def)
    show "req_chat (t_req t1) \<noteq> req_chat (t_req t2)"
      using c1 c2 h ap old unfolding pending_apart_def by metis
  qed
  show ?thesis unfolding ledger_inv_def using d p o a by blast
qed

text \<open>A step that keeps the request and the inserted row of the transaction.\<close>

lemma inv_set_txn_keep:
  assumes i: "ledger_inv s" and m: "(k, t) \<in> set (txns s)"
    and ok: "txn_ok s t'" and sh: "txn_shape t'"
    and same: "t_req t' = t_req t" "t_insert t' = t_insert t"
  shows "ledger_inv (set_txn s k t')"
proof (rule inv_set_txn[OF i ok sh])
  assume "t_insert t' \<noteq> None"
  then have ins: "t_insert t \<noteq> None" using same by simp
  have ap: "pending_apart (txns s)" using i by (simp add: ledger_inv_def)
  show "\<forall>k2 t2. (k2, t2) \<in> set (txns s) \<and> k2 \<noteq> k \<and> t_insert t2 \<noteq> None
         \<longrightarrow> req_chat (t_req t2) \<noteq> req_chat (t_req t')"
    using ap m ins same unfolding pending_apart_def by auto
qed

lemma in_txns: "distinct (map fst ts) \<Longrightarrow> map_of ts k = Some t \<longleftrightarrow> (k, t) \<in> set ts"
  by simp

lemma successes_finish:
  "successes (finish s k t r) c =
     successes s c + (if req_chat (t_req t) = c \<and> is_ok r then 1 else 0)"
  by (simp add: successes_def finish_def)

lemma pending_apart_filter: "pending_apart ts \<Longrightarrow> pending_apart (filter P ts)"
  unfolding pending_apart_def by auto

text \<open>The end of a handler that has not committed, with a response or without one.\<close>

lemma inv_drop:
  assumes i: "ledger_inv s" and sc: "\<And>c. successes s' c = successes s c"
    and m: "msgs s' = msgs s" and tx: "txns s' = filter (\<lambda>(k', t'). k' \<noteq> k) (txns s)"
  shows "ledger_inv s'"
proof -
  have d: "distinct (map fst (txns s'))"
    using i by (simp add: tx ledger_inv_def distinct_map_filter)
  have p: "positions_ok s'"
    using i by (simp add: ledger_inv_def positions_ok_def sc m)
  have o: "\<forall>k2 t2. (k2, t2) \<in> set (txns s') \<longrightarrow> txn_ok s' t2 \<and> txn_shape t2"
    using i by (auto simp: tx ledger_inv_def txn_ok_successes[of s' _ s] sc)
  have a: "pending_apart (txns s')"
    using i by (simp add: tx ledger_inv_def pending_apart_filter)
  show ?thesis unfolding ledger_inv_def using d p o a by blast
qed

lemma inv_finish_fail:
  assumes i: "ledger_inv s" and r: "\<not> is_ok r"
  shows "ledger_inv (finish s k t r)"
proof (rule inv_drop[OF i, of _ k])
  show "\<And>c. successes (finish s k t r) c = successes s c"
    using r by (simp add: successes_finish)
qed (simp_all add: finish_def)

lemma inv_abandon: "ledger_inv s \<Longrightarrow> ledger_inv (abandon s k)"
  by (rule inv_drop[of s _ k]) (simp_all add: abandon_def successes_def)

lemma max_idx_next:
  assumes "positions_ok s"
  shows "max_idx (msgs s) c + 1 = int (successes s c)"
proof -
  let ?xs = "idxs (msgs s) c"
  have st: "set ?xs = {0..<int (successes s c)}" using assms by (simp add: positions_ok_def)
  show ?thesis
  proof (cases ?xs)
    case Nil
    then have "{0..<int (successes s c)} = {}" using st by simp
    then have "successes s c = 0" by simp
    then show ?thesis using Nil by (simp add: max_idx_def)
  next
    case (Cons i "is")
    then have ne: "successes s c > 0" using st by (cases "successes s c") auto
    have "fold max is i = Max (set (i # is))" by (rule Max.set_eq_fold[symmetric])
    also have "\<dots> = Max {0..<int (successes s c)}" using st Cons by simp
    also have "\<dots> = int (successes s c) - 1"
      using ne by (intro Max_eqI) auto
    finally show ?thesis using Cons by (simp add: max_idx_def)
  qed
qed

lemma idxs_append: "idxs (ms @ [row]) c = idxs ms c @ (if msg_chat row = c then [msg_idx row] else [])"
  by (simp add: idxs_def)

lemma at_commit:
  assumes "txn_ok s t" and "t_pc t = AtUpdate \<or> t_pc t = AtCommit"
  shows "t_insert t = Some (new_row t) \<and> t_nextIdx t = int (successes s (req_chat (t_req t)))"
  using assms by (auto simp: txn_ok_def split: if_splits)

lemma inv_commit:
  assumes i: "ledger_inv s" and m: "(k, t) \<in> set (txns s)" and pc: "t_pc t = AtCommit"
  shows "ledger_inv (finish (apply_writes s t) k t (R200 a b ts))"
proof -
  let ?c = "req_chat (t_req t)"
  let ?s' = "finish (apply_writes s t) k t (R200 a b ts)"
  have ok: "txn_ok s t" using i m by (auto simp: ledger_inv_def)
  have ins: "t_insert t = Some (new_row t)" and nx: "t_nextIdx t = int (successes s ?c)"
    using at_commit[OF ok] pc by simp_all
  have ms: "msgs ?s' = msgs s @ [new_row t]" by (simp add: finish_def apply_writes_def ins)
  have tx: "txns ?s' = filter (\<lambda>(k', t'). k' \<noteq> k) (txns s)"
    by (simp add: finish_def apply_writes_def)
  have sc: "\<And>c. successes ?s' c = successes s c + (if ?c = c then 1 else 0)"
    by (simp add: successes_def finish_def apply_writes_def is_ok_def)
  have po: "positions_ok s" using i by (simp add: ledger_inv_def)
  have d: "distinct (map fst (txns ?s'))" using i by (simp add: tx ledger_inv_def distinct_map_filter)
  have p: "positions_ok ?s'"
    unfolding positions_ok_def
  proof (intro allI)
    fix c
    have old: "distinct (idxs (msgs s) c)" "set (idxs (msgs s) c) = {0..<int (successes s c)}"
      using po by (simp_all add: positions_ok_def)
    show "distinct (idxs (msgs ?s') c) \<and> set (idxs (msgs ?s') c) = {0..<int (successes ?s' c)}"
    proof (cases "?c = c")
      case True
      have "idxs (msgs ?s') c = idxs (msgs s) c @ [int (successes s c)]"
        using True nx by (simp add: ms idxs_append new_row_def)
      then show ?thesis using old True by (auto simp: sc)
    next
      case False
      have "idxs (msgs ?s') c = idxs (msgs s) c"
        using False by (simp add: ms idxs_append new_row_def)
      then show ?thesis using old False by (simp add: sc)
    qed
  qed
  have ap: "pending_apart (txns s)" using i by (simp add: ledger_inv_def)
  have o: "\<forall>k2 t2. (k2, t2) \<in> set (txns ?s') \<longrightarrow> txn_ok ?s' t2 \<and> txn_shape t2"
  proof (intro allI impI)
    fix k2 t2
    assume "(k2, t2) \<in> set (txns ?s')"
    then have in2: "(k2, t2) \<in> set (txns s)" and ne: "k2 \<noteq> k" by (auto simp: tx)
    have ok2: "txn_ok s t2" and sh2: "txn_shape t2" using i in2 by (auto simp: ledger_inv_def)
    have "txn_ok ?s' t2"
    proof (cases "req_chat (t_req t2) = ?c")
      case False
      then show ?thesis using ok2 by (simp add: txn_ok_successes[of ?s' _ s] sc)
    next
      case True
      have "t_insert t2 = None"
      proof (rule ccontr)
        assume "t_insert t2 \<noteq> None"
        then have "req_chat (t_req t2) \<noteq> ?c"
          using ap in2 m ne ins unfolding pending_apart_def by (metis option.distinct(1))
        then show False using True by simp
      qed
      then show ?thesis using ok2 True by (auto simp: txn_ok_def sc)
    qed
    then show "txn_ok ?s' t2 \<and> txn_shape t2" using sh2 by simp
  qed
  have a: "pending_apart (txns ?s')" using ap by (simp add: tx pending_apart_filter)
  show ?thesis unfolding ledger_inv_def using d p o a by blast
qed

lemma inv_respond_fail:
  assumes "ledger_inv s" and "\<not> is_ok r"
  shows "ledger_inv (s\<lparr>responses := responses s @ [(k, c, r)]\<rparr>)"
proof -
  have "\<And>c'. successes (s\<lparr>responses := responses s @ [(k, c, r)]\<rparr>) c' = successes s c'"
    using assms(2) by (simp add: successes_def)
  then show ?thesis using assms(1)
    by (simp add: ledger_inv_def positions_ok_def
        txn_ok_successes[of "s\<lparr>responses := responses s @ [(k, c, r)]\<rparr>" _ s])
qed

lemma inv_arrive:
  assumes i: "ledger_inv s" and free: "map_of (txns s) k = None"
    and body: "req_role req \<noteq> []" "req_content req \<noteq> None"
  shows "ledger_inv (s\<lparr>txns := txns s @
           [(k, \<lparr>t_req = req, t_pc = AtBegin, t_isolation = None, t_locked = False,
                 t_nextIdx = 0, t_insert = None, t_touch = None\<rparr>)]\<rparr>)"
proof -
  let ?t = "\<lparr>t_req = req, t_pc = AtBegin, t_isolation = None, t_locked = False,
                 t_nextIdx = 0, t_insert = None, t_touch = None\<rparr>"
  let ?s' = "s\<lparr>txns := txns s @ [(k, ?t)]\<rparr>"
  have nk: "k \<notin> fst ` set (txns s)" using free by (simp add: map_of_eq_None_iff)
  have d: "distinct (map fst (txns ?s'))" using i nk by (simp add: ledger_inv_def)
  have sc: "\<And>c. successes ?s' c = successes s c" by (simp add: successes_def)
  have p: "positions_ok ?s'" using i by (simp add: ledger_inv_def positions_ok_def sc)
  have o: "\<forall>k2 t2. (k2, t2) \<in> set (txns ?s') \<longrightarrow> txn_ok ?s' t2 \<and> txn_shape t2"
    using i body by (auto simp: ledger_inv_def txn_ok_successes[of ?s' _ s] sc)
       (simp_all add: txn_ok_def txn_shape_def)
  have a: "pending_apart (txns ?s')"
    using i unfolding ledger_inv_def pending_apart_def by auto
  show ?thesis unfolding ledger_inv_def using d p o a by blast
qed

lemma pending_pc:
  "txn_ok s t \<Longrightarrow> t_insert t \<noteq> None \<Longrightarrow>
     t_insert t = Some (new_row t) \<and> t_nextIdx t = int (successes s (req_chat (t_req t)))"
  by (auto simp: txn_ok_def split: if_splits)

lemma inv_insert:
  assumes i: "ledger_inv s" and m: "(k, t) \<in> set (txns s)" and pc: "t_pc t = AtInsert"
    and np: "\<not> key_pending s k (new_row t)" and nt: "\<not> key_taken (msgs s) (new_row t)"
  shows "ledger_inv (set_txn s k (t\<lparr>t_pc := AtUpdate, t_insert := Some (new_row t)\<rparr>))"
proof (rule inv_set_txn[OF i])
  let ?c = "req_chat (t_req t)"
  let ?t' = "t\<lparr>t_pc := AtUpdate, t_insert := Some (new_row t)\<rparr>"
  have ok: "txn_ok s t" and sh: "txn_shape t" using i m by (auto simp: ledger_inv_def)
  then have b: "0 \<le> t_nextIdx t" "t_nextIdx t \<le> int (successes s ?c)"
    using pc by (auto simp: txn_ok_def split: if_splits)
  have po: "set (idxs (msgs s) ?c) = {0..<int (successes s ?c)}"
    using i by (simp add: ledger_inv_def positions_ok_def)
  have "t_nextIdx t \<notin> set (idxs (msgs s) ?c)"
  proof
    assume "t_nextIdx t \<in> set (idxs (msgs s) ?c)"
    then obtain r where "r \<in> set (msgs s)" "msg_chat r = ?c" "msg_idx r = t_nextIdx t"
      by (auto simp: idxs_def)
    then have "key_taken (msgs s) (new_row t)"
      by (auto simp: key_taken_def list_ex_iff same_key_def new_row_def intro!: bexI[of _ r])
    then show False using nt by simp
  qed
  then have nx: "t_nextIdx t = int (successes s ?c)" using po b by auto
  have nr: "new_row ?t' = new_row t" by (simp add: new_row_def)
  show "txn_ok s ?t'" using nx by (simp add: txn_ok_def nr)
  show "txn_shape ?t'" using sh pc by (simp add: txn_shape_def)
  show "\<forall>k2 t2. (k2, t2) \<in> set (txns s) \<and> k2 \<noteq> k \<and> t_insert t2 \<noteq> None
         \<longrightarrow> req_chat (t_req t2) \<noteq> req_chat (t_req ?t')"
  proof (intro allI impI)
    fix k2 t2
    assume h: "(k2, t2) \<in> set (txns s) \<and> k2 \<noteq> k \<and> t_insert t2 \<noteq> None"
    have ok2: "txn_ok s t2" using i h by (auto simp: ledger_inv_def)
    have p2: "t_insert t2 = Some (new_row t2)"
      "t_nextIdx t2 = int (successes s (req_chat (t_req t2)))"
      using pending_pc[OF ok2] h by auto
    show "req_chat (t_req t2) \<noteq> req_chat (t_req ?t')"
    proof
      assume e: "req_chat (t_req t2) = req_chat (t_req ?t')"
      then have "same_key (new_row t) (new_row t2)"
        using p2 nx by (simp add: same_key_def new_row_def)
      then have "key_pending s k (new_row t)"
        using h p2 by (auto simp: key_pending_def list_ex_iff intro!: bexI[of _ "(k2, t2)"])
      then show False using np by simp
    qed
  qed
qed

text \<open>A statement that fails takes the handler to the rollback of the \<^verbatim>\<open>catch\<close> block.\<close>

lemma inv_to_catch:
  assumes i: "ledger_inv s" and m: "(k, t) \<in> set (txns s)"
  shows "ledger_inv (set_txn s k (t\<lparr>t_pc := AtRollbackCatch\<rparr>))"
proof (rule inv_set_txn_keep[OF i m])
  have ok: "txn_ok s t" and sh: "txn_shape t" using i m by (auto simp: ledger_inv_def)
  have nr: "new_row (t\<lparr>t_pc := AtRollbackCatch\<rparr>) = new_row t" by (simp add: new_row_def)
  show "txn_ok s (t\<lparr>t_pc := AtRollbackCatch\<rparr>)"
    using ok by (auto simp: txn_ok_def nr split: if_splits)
  show "txn_shape (t\<lparr>t_pc := AtRollbackCatch\<rparr>)" using sh by (simp add: txn_shape_def)
qed simp_all

lemma inv_step:
  assumes i: "ledger_inv s" and st: "step e s a = Some s'"
  shows "ledger_inv s'"
proof (cases a)
  case (Arrive k req)
  then show ?thesis using i st
    by (auto simp: step_def inv_respond_fail inv_arrive is_ok_def split: if_splits)
next
  case (NoConnection k req)
  then show ?thesis using i st
    by (auto simp: step_def inv_respond_fail is_ok_def split: if_splits)
next
  case (Throw k)
  then obtain t where mo: "map_of (txns s) k = Some t"
    using st by (auto simp: step_def split: option.splits)
  have d: "distinct (map fst (txns s))" using i by (simp add: ledger_inv_def)
  have m: "(k, t) \<in> set (txns s)" using mo d by simp
  show ?thesis
  proof (cases "t_pc t = AtRollbackCatch")
    case True
    then have "s' = abandon s k" using st Throw mo by (simp add: step_def)
    then show ?thesis using inv_abandon[OF i] by simp
  next
    case False
    then have "s' = set_txn s k (t\<lparr>t_pc := AtRollbackCatch\<rparr>)"
      using st Throw mo by (simp add: step_def)
    then show ?thesis using inv_to_catch[OF i m] by simp
  qed
next
  case (Run k)
  then obtain t where mo: "map_of (txns s) k = Some t"
    using st by (auto simp: step_def split: option.splits)
  have d: "distinct (map fst (txns s))" using i by (simp add: ledger_inv_def)
  have m: "(k, t) \<in> set (txns s)" using mo d by simp
  have ok: "txn_ok s t" and sh: "txn_shape t" using i m by (auto simp: ledger_inv_def)
  show ?thesis
  proof (cases "t_pc t")
    case AtBegin
    let ?t' = "t\<lparr>t_pc := AtSelectChat, t_isolation := Some SessionLevel\<rparr>"
    have s': "s' = set_txn s k ?t'" using st Run mo AtBegin by (simp add: step_def)
    have nr: "new_row ?t' = new_row t" by (simp add: new_row_def)
    have "txn_ok s ?t'" using ok AtBegin by (auto simp: txn_ok_def nr split: if_splits)
    moreover have "txn_shape ?t'" using sh by (simp add: txn_shape_def)
    ultimately show ?thesis using inv_set_txn_keep[OF i m, of ?t'] s' by simp
  next
    case AtSelectChat
    show ?thesis
    proof (cases "owned (chats s) (req_chat (t_req t)) (req_user (t_req t))")
      case True
      let ?t' = "t\<lparr>t_pc := AtSelectMax\<rparr>"
      have s': "s' = set_txn s k ?t'" using st Run mo AtSelectChat True by (simp add: step_def)
      have nr: "new_row ?t' = new_row t" by (simp add: new_row_def)
      have "txn_ok s ?t'" using ok AtSelectChat by (auto simp: txn_ok_def nr split: if_splits)
      moreover have "txn_shape ?t'" using sh AtSelectChat by (simp add: txn_shape_def)
      ultimately show ?thesis using inv_set_txn_keep[OF i m, of ?t'] s' by simp
    next
      case False
      let ?t' = "t\<lparr>t_pc := AtRollbackNotFound\<rparr>"
      have s': "s' = set_txn s k ?t'" using st Run mo AtSelectChat False by (simp add: step_def)
      have nr: "new_row ?t' = new_row t" by (simp add: new_row_def)
      have "txn_ok s ?t'" using ok AtSelectChat by (auto simp: txn_ok_def nr split: if_splits)
      moreover have "txn_shape ?t'" using sh AtSelectChat by (simp add: txn_shape_def)
      ultimately show ?thesis using inv_set_txn_keep[OF i m, of ?t'] s' by simp
    qed
  next
    case AtRollbackNotFound
    then have "s' = finish s k t R404" using st Run mo by (simp add: step_def)
    then show ?thesis using inv_finish_fail[OF i] by (simp add: is_ok_def)
  next
    case AtSelectMax
    let ?t' = "t\<lparr>t_pc := AtInsert, t_locked := True,
                 t_nextIdx := max_idx (msgs s) (req_chat (t_req t)) + 1\<rparr>"
    have s': "s' = set_txn s k ?t'"
      using st Run mo AtSelectMax by (simp add: step_def split: if_splits)
    have ins: "t_insert t = None" using ok AtSelectMax by (auto simp: txn_ok_def split: if_splits)
    have "txn_ok s ?t'"
      using ins i max_idx_next[of s "req_chat (t_req t)"]
      by (simp add: txn_ok_def ledger_inv_def)
    moreover have "txn_shape ?t'" using sh AtSelectMax by (simp add: txn_shape_def)
    moreover have "t_insert ?t' = None" using ins by simp
    ultimately show ?thesis using inv_set_txn[OF i, of ?t' k] s' by simp
  next
    case AtInsert
    have np: "\<not> key_pending s k (new_row t)"
      using st Run mo AtInsert by (auto simp: step_def split: if_splits)
    show ?thesis
    proof (cases "key_taken (msgs s) (new_row t) \<or> map_of (chats s) (req_chat (t_req t)) = None")
      case True
      then have "s' = set_txn s k (t\<lparr>t_pc := AtRollbackCatch\<rparr>)"
        using st Run mo AtInsert np by (auto simp: step_def)
      then show ?thesis using inv_to_catch[OF i m] by simp
    next
      case False
      then have "s' = set_txn s k (t\<lparr>t_pc := AtUpdate, t_insert := Some (new_row t)\<rparr>)"
        using st Run mo AtInsert np by (auto simp: step_def)
      then show ?thesis using inv_insert[OF i m AtInsert np] False by simp
    qed
  next
    case AtUpdate
    let ?t' = "t\<lparr>t_pc := AtCommit, t_touch := Some (now (t_req t))\<rparr>"
    have s': "s' = set_txn s k ?t'" using st Run mo AtUpdate by (simp add: step_def)
    have nr: "new_row ?t' = new_row t" by (simp add: new_row_def)
    have "txn_ok s ?t'" using ok AtUpdate by (auto simp: txn_ok_def nr split: if_splits)
    moreover have "txn_shape ?t'" using sh AtUpdate by (simp add: txn_shape_def)
    ultimately show ?thesis using inv_set_txn_keep[OF i m, of ?t'] s' by simp
  next
    case AtCommit
    then have "s' = finish (apply_writes s t) k t (R200 (new_id (t_req t)) (t_nextIdx t) (now (t_req t)))"
      using st Run mo by (simp add: step_def)
    then show ?thesis using inv_commit[OF i m AtCommit] by simp
  next
    case AtRollbackCatch
    then have "s' = finish s k t R500" using st Run mo by (simp add: step_def)
    then show ?thesis using inv_finish_fail[OF i] by (simp add: is_ok_def)
  qed
qed

lemma inv_run: "ledger_inv s \<Longrightarrow> run e s acts = Some s' \<Longrightarrow> ledger_inv s'"
proof (induction acts arbitrary: s)
  case Nil
  then show ?case by simp
next
  case (Cons a acts)
  from Cons.prems(2) obtain s1 where s1: "step e s a = Some s1" "run e s1 acts = Some s'"
    by (auto split: option.splits)
  have "ledger_inv s1" using inv_step[OF Cons.prems(1) s1(1)] .
  then show ?case using Cons.IH s1(2) by blast
qed

lemma sorted_positions:
  assumes d: "distinct (map f xs)" and st: "f ` set xs = {0..<int n}"
  shows "map f (sort_key f xs) = map int [0..<n]"
proof -
  have "distinct xs" "inj_on f (set xs)" using d by (simp_all add: distinct_map)
  then have d1: "distinct (map f (sort_key f xs))" by (simp add: distinct_map)
  have s1: "sorted (map f (sort_key f xs))" by simp
  have e: "set (map f (sort_key f xs)) = set (map int [0..<n])"
    using st by (auto simp: image_int_atLeastLessThan)
  have s2: "sorted (map int [0..<n])" by (simp add: sorted_map strict_sorted_iff)
  have d2: "distinct (map int [0..<n])" by (simp add: distinct_map)
  show ?thesis by (rule sorted_distinct_set_unique[OF s1 d1 s2 d2 e])
qed

text \<open>
  Claim C1. After any sequence of arrivals, completed statements and failures, in any
  interleaving of the handlers and whether or not the locking read of one transaction
  makes another wait, the list of a conversation holds as many messages as appends to it
  have answered with status 200, and their positions, in the order returned, are
  0, 1, ..., N-1. (The run starts from a server without messages and consists of appends;
  conversations are not deleted during it.)
\<close>

theorem positions_gap_free:
  assumes "run exclusive (init cs) acts = Some s" and "getChat s u c = Inr ms"
  shows "map msg_idx ms = map int [0..<successes s c] \<and> length ms = successes s c"
proof -
  have i: "ledger_inv s" using inv_run[OF inv_init assms(1)] .
  have ms: "ms = sort_key msg_idx (filter (\<lambda>m. msg_chat m = c) (msgs s))"
    using assms(2) by (simp add: getChat_def split: if_splits)
  have p: "distinct (idxs (msgs s) c)" "set (idxs (msgs s) c) = {0..<int (successes s c)}"
    using i by (simp_all add: ledger_inv_def positions_ok_def)
  have "map msg_idx ms = map int [0..<successes s c]"
    unfolding ms using p sorted_positions[of msg_idx "filter (\<lambda>m. msg_chat m = c) (msgs s)" "successes s c"]
    by (simp add: idxs_def)
  then show ?thesis using map_eq_imp_length_eq by fastforce
qed

theorem positions_gap_free_witness:
  "run False (init chats0) interleaved = Some after_interleaved
   \<and> getChat after_interleaved ''u'' ''c'' = Inr (msgs after_interleaved)
   \<and> successes after_interleaved ''c'' = 2
   \<and> map msg_idx (msgs after_interleaved) = map int [0..<2]"
proof -
  have r: "run False (init chats0) interleaved = Some after_interleaved" by code_simp
  have g: "getChat after_interleaved ''u'' ''c'' = Inr (msgs after_interleaved)" by code_simp
  have n: "successes after_interleaved ''c'' = 2" by code_simp
  show ?thesis using r g n positions_gap_free[OF r g] by simp
qed

lemma map_of_set_entry:
  "map_of (map (\<lambda>(k', t'). if k' = k then (k', t) else (k', t')) ts) k2 =
     (if k2 = k then map_option (\<lambda>u. t) (map_of ts k) else map_of ts k2)"
  by (induction ts) auto

lemma map_of_set_txn:
  "map_of (txns (set_txn s k t)) k2 =
     (if k2 = k then map_option (\<lambda>u. t) (map_of (txns s) k) else map_of (txns s) k2)"
  by (simp add: set_txn_def map_of_set_entry)

lemma map_of_filter_ne:
  "map_of (filter (\<lambda>(k', t'). k' \<noteq> k) ts) k2 = (if k2 = k then None else map_of ts k2)"
  by (induction ts) auto

lemma finish_facts:
  "msgs (finish s k t r) = msgs s \<and> chats (finish s k t r) = chats s
   \<and> map_of (txns (finish s k t r)) k = None
   \<and> responses (finish s k t r) = responses s @ [(k, req_chat (t_req t), r)]"
  by (simp add: finish_def map_of_filter_ne)

lemma abandon_facts:
  "msgs (abandon s k) = msgs s \<and> chats (abandon s k) = chats s
   \<and> map_of (txns (abandon s k)) k = None \<and> responses (abandon s k) = responses s"
  by (simp add: abandon_def map_of_filter_ne)













lemma store_changes_only_at_commit:
  assumes "step e s a = Some s'" and "msgs s' \<noteq> msgs s \<or> chats s' \<noteq> chats s"
  shows "\<exists>k t. a = Run k \<and> map_of (txns s) k = Some t \<and> t_pc t = AtCommit
          \<and> responses s' = responses s @
              [(k, req_chat (t_req t), R200 (new_id (t_req t)) (t_nextIdx t) (now (t_req t)))]"
proof (cases a)
  case (Arrive k req)
  then show ?thesis using assms by (auto simp: step_def split: if_splits)
next
  case (NoConnection k req)
  then show ?thesis using assms by (auto simp: step_def split: if_splits)
next
  case (Throw k)
  then show ?thesis using assms
    by (auto simp: step_def abandon_def split: option.splits if_splits)
next
  case (Run k)
  then obtain t where mo: "map_of (txns s) k = Some t"
    using assms(1) by (auto simp: step_def split: option.splits)
  show ?thesis
  proof (cases "t_pc t")
    case AtCommit
    then have "s' = finish (apply_writes s t) k t
        (R200 (new_id (t_req t)) (t_nextIdx t) (now (t_req t)))"
      using assms(1) Run mo by (simp add: step_def)
    then show ?thesis using Run mo AtCommit by (simp add: finish_def apply_writes_def)
  qed (use assms Run mo in \<open>auto simp: step_def finish_def split: if_splits\<close>)
qed














text \<open>
  Claim C3: an append that fails inside its transaction surfaces an error. The code
  misses the case of a rollback that fails. In the run below the request has passed the
  check of the body, the transaction has begun, the conversation is found, the maximum is
  read and the row inserted; then \<^verbatim>\<open>UPDATE chats\<close> rejects, and the \<^verbatim>\<open>conn.rollback()\<close> of the
  \<^verbatim>\<open>catch\<close> block rejects too. The \<^verbatim>\<open>await\<close> throws inside the \<^verbatim>\<open>catch\<close>, \<^verbatim>\<open>res.status(500)\<close> is
  not reached, and the handler ends without any response (the log of responses is
  empty). The same failure of the update answers 500 when the rollback resolves. A
  request for which \<^verbatim>\<open>pool.getConnection()\<close> rejects gets no response either: the call is
  outside the \<^verbatim>\<open>try\<close>. Nothing is written in any of these runs.
\<close>

theorem failed_rollback_sends_no_response:
  "run False (init chats0) (update_fails @ [Throw 1]) = Some (init chats0)
   \<and> responses (init chats0) = []
   \<and> run False (init chats0) (update_fails @ [Run 1]) =
       Some ((init chats0)\<lparr>responses := [(1, ''c'', R500)]\<rparr>)
   \<and> step False (init chats0) (NoConnection 1 (req_by ''u'' ''m1'' ''t1'')) = Some (init chats0)"
  by code_simp

text \<open>
  Failure with a rollback that resolves. A handler whose awaited statement fails, at any
  point of its transaction before the rollback of the \<^verbatim>\<open>catch\<close> block, ends with status 500
  once that rollback has resolved, and both tables are as they were; so does one whose
  insert meets a committed row with its key, or no conversation. One that does not find
  the conversation among those of the caller ends with status 404 once its rollback has
  resolved, the tables unchanged. In each case the transaction is gone afterwards. And no
  step of the server changes a table except a commit, which answers with status 200: a
  handler that fails has written nothing.
\<close>

theorem rollback_then_error:
  "(map_of (txns s) k = Some t \<and> t_pc t \<noteq> AtRollbackCatch \<longrightarrow>
      (\<exists>s'. run exclusive s [Throw k, Run k] = Some s' \<and> msgs s' = msgs s \<and> chats s' = chats s
          \<and> map_of (txns s') k = None
          \<and> responses s' = responses s @ [(k, req_chat (t_req t), R500)]))
   \<and> (map_of (txns s) k = Some t \<and> t_pc t = AtSelectChat
        \<and> \<not> owned (chats s) (req_chat (t_req t)) (req_user (t_req t)) \<longrightarrow>
      (\<exists>s'. run exclusive s [Run k, Run k] = Some s' \<and> msgs s' = msgs s \<and> chats s' = chats s
          \<and> map_of (txns s') k = None
          \<and> responses s' = responses s @ [(k, req_chat (t_req t), R404)]))
   \<and> (map_of (txns s) k = Some t \<and> t_pc t = AtInsert \<and> \<not> key_pending s k (new_row t)
        \<and> (key_taken (msgs s) (new_row t) \<or> map_of (chats s) (req_chat (t_req t)) = None) \<longrightarrow>
      (\<exists>s'. run exclusive s [Run k, Run k] = Some s' \<and> msgs s' = msgs s \<and> chats s' = chats s
          \<and> map_of (txns s') k = None
          \<and> responses s' = responses s @ [(k, req_chat (t_req t), R500)]))
   \<and> (step exclusive s a = Some s1 \<and> (msgs s1 \<noteq> msgs s \<or> chats s1 \<noteq> chats s) \<longrightarrow>
      (\<exists>k' t'. a = Run k' \<and> map_of (txns s) k' = Some t' \<and> t_pc t' = AtCommit
          \<and> responses s1 = responses s @
              [(k', req_chat (t_req t'),
                R200 (new_id (t_req t')) (t_nextIdx t') (now (t_req t')))]))"
proof -
  have fin: "\<exists>s'. step exclusive (set_txn s k (t\<lparr>t_pc := p\<rparr>)) (Run k) = Some s'
          \<and> msgs s' = msgs s \<and> chats s' = chats s \<and> map_of (txns s') k = None
          \<and> responses s' = responses s @ [(k, req_chat (t_req t), r)]"
    if "map_of (txns s) k = Some t" and "(p = AtRollbackCatch \<and> r = R500) \<or> (p = AtRollbackNotFound \<and> r = R404)"
    for p r
    using that finish_facts[of "set_txn s k (t\<lparr>t_pc := p\<rparr>)" k "t\<lparr>t_pc := p\<rparr>" r]
    by (auto simp: step_def map_of_set_txn)
  have a: "map_of (txns s) k = Some t \<and> t_pc t \<noteq> AtRollbackCatch \<longrightarrow>
      (\<exists>s'. run exclusive s [Throw k, Run k] = Some s' \<and> msgs s' = msgs s \<and> chats s' = chats s
          \<and> map_of (txns s') k = None
          \<and> responses s' = responses s @ [(k, req_chat (t_req t), R500)])"
  proof
    assume h: "map_of (txns s) k = Some t \<and> t_pc t \<noteq> AtRollbackCatch"
    then have "step exclusive s (Throw k) = Some (set_txn s k (t\<lparr>t_pc := AtRollbackCatch\<rparr>))"
      by (simp add: step_def)
    then show "\<exists>s'. run exclusive s [Throw k, Run k] = Some s' \<and> msgs s' = msgs s \<and> chats s' = chats s
          \<and> map_of (txns s') k = None
          \<and> responses s' = responses s @ [(k, req_chat (t_req t), R500)]"
      using fin[of AtRollbackCatch R500] h by (auto split: option.splits)
  qed
  have b: "map_of (txns s) k = Some t \<and> t_pc t = AtSelectChat
        \<and> \<not> owned (chats s) (req_chat (t_req t)) (req_user (t_req t)) \<longrightarrow>
      (\<exists>s'. run exclusive s [Run k, Run k] = Some s' \<and> msgs s' = msgs s \<and> chats s' = chats s
          \<and> map_of (txns s') k = None
          \<and> responses s' = responses s @ [(k, req_chat (t_req t), R404)])"
  proof
    assume h: "map_of (txns s) k = Some t \<and> t_pc t = AtSelectChat
        \<and> \<not> owned (chats s) (req_chat (t_req t)) (req_user (t_req t))"
    then have "step exclusive s (Run k) = Some (set_txn s k (t\<lparr>t_pc := AtRollbackNotFound\<rparr>))"
      by (simp add: step_def)
    then show "\<exists>s'. run exclusive s [Run k, Run k] = Some s' \<and> msgs s' = msgs s \<and> chats s' = chats s
          \<and> map_of (txns s') k = None
          \<and> responses s' = responses s @ [(k, req_chat (t_req t), R404)]"
      using fin[of AtRollbackNotFound R404] h by (auto split: option.splits)
  qed
  have c: "map_of (txns s) k = Some t \<and> t_pc t = AtInsert \<and> \<not> key_pending s k (new_row t)
        \<and> (key_taken (msgs s) (new_row t) \<or> map_of (chats s) (req_chat (t_req t)) = None) \<longrightarrow>
      (\<exists>s'. run exclusive s [Run k, Run k] = Some s' \<and> msgs s' = msgs s \<and> chats s' = chats s
          \<and> map_of (txns s') k = None
          \<and> responses s' = responses s @ [(k, req_chat (t_req t), R500)])"
  proof
    assume h: "map_of (txns s) k = Some t \<and> t_pc t = AtInsert \<and> \<not> key_pending s k (new_row t)
        \<and> (key_taken (msgs s) (new_row t) \<or> map_of (chats s) (req_chat (t_req t)) = None)"
    then have "step exclusive s (Run k) = Some (set_txn s k (t\<lparr>t_pc := AtRollbackCatch\<rparr>))"
      by (auto simp: step_def)
    then show "\<exists>s'. run exclusive s [Run k, Run k] = Some s' \<and> msgs s' = msgs s \<and> chats s' = chats s
          \<and> map_of (txns s') k = None
          \<and> responses s' = responses s @ [(k, req_chat (t_req t), R500)]"
      using fin[of AtRollbackCatch R500] h by (auto split: option.splits)
  qed
  show ?thesis using a b c store_changes_only_at_commit[of exclusive s a s1] by blast
qed

theorem rollback_then_error_witness:
  "map_of (txns (in_flight txn_inserted)) 1 = Some txn_inserted
   \<and> (\<exists>s'. run False (in_flight txn_inserted) [Throw 1, Run 1] = Some s' \<and> msgs s' = []
         \<and> chats s' = chats0 \<and> map_of (txns s') 1 = None \<and> responses s' = [(1, ''c'', R500)])
   \<and> map_of (txns (in_flight txn_stranger)) 1 = Some txn_stranger
   \<and> (\<exists>s'. run False (in_flight txn_stranger) [Run 1, Run 1] = Some s' \<and> msgs s' = []
         \<and> chats s' = chats0 \<and> map_of (txns s') 1 = None \<and> responses s' = [(1, ''c'', R404)])
   \<and> key_taken (msgs overtaken) (new_row txn_at_insert)
   \<and> (\<exists>s'. run False overtaken [Run 2, Run 2] = Some s' \<and> msgs s' = msgs overtaken
         \<and> chats s' = chats overtaken \<and> map_of (txns s') 2 = None
         \<and> responses s' = responses overtaken @ [(2, ''c'', R500)])
   \<and> (\<exists>s1. step False (in_flight txn_committing) (Run 1) = Some s1
         \<and> msgs s1 \<noteq> msgs (in_flight txn_committing)
         \<and> responses s1 = [(1, ''c'', R200 ''m1'' 0 ''t1'')])"
proof -
  have m1: "map_of (txns (in_flight txn_inserted)) 1 = Some txn_inserted"
    by (simp add: in_flight_def)
  have p1: "t_pc txn_inserted \<noteq> AtRollbackCatch" by (simp add: txn_inserted_def)
  have m2: "map_of (txns (in_flight txn_stranger)) 1 = Some txn_stranger"
    by (simp add: in_flight_def)
  have p2: "t_pc txn_stranger = AtSelectChat" by (simp add: txn_stranger_def)
  have o2: "\<not> owned (chats (in_flight txn_stranger)) (req_chat (t_req txn_stranger))
              (req_user (t_req txn_stranger))"
    by code_simp
  have m3: "map_of (txns overtaken) 2 = Some txn_at_insert" by (simp add: overtaken_def)
  have p3: "t_pc txn_at_insert = AtInsert" by (simp add: txn_at_insert_def)
  have k3: "\<not> key_pending overtaken 2 (new_row txn_at_insert)" by code_simp
  have t3: "key_taken (msgs overtaken) (new_row txn_at_insert)" by code_simp
  obtain s1 where s1: "step False (in_flight txn_committing) (Run 1) = Some s1"
    and ch: "msgs s1 \<noteq> msgs (in_flight txn_committing)"
    by (simp add: step_def in_flight_def txn_committing_def txn_inserted_def finish_def
        apply_writes_def)
  have f: "msgs (in_flight txn_inserted) = []" "chats (in_flight txn_inserted) = chats0"
    "responses (in_flight txn_inserted) = []" "req_chat (t_req txn_inserted) = ''c''"
    "msgs (in_flight txn_stranger) = []" "chats (in_flight txn_stranger) = chats0"
    "responses (in_flight txn_stranger) = []" "req_chat (t_req txn_stranger) = ''c''"
    "req_chat (t_req txn_at_insert) = ''c''"
    by (simp_all add: in_flight_def txn_inserted_def txn_stranger_def txn_at_insert_def req_by_def)
  have g: "map_of (txns (in_flight txn_committing)) 1 = Some txn_committing"
    "responses (in_flight txn_committing) = []"
    "req_chat (t_req txn_committing) = ''c''" "new_id (t_req txn_committing) = ''m1''"
    "t_nextIdx txn_committing = 0" "now (t_req txn_committing) = ''t1''"
    by (simp_all add: in_flight_def txn_committing_def txn_inserted_def req_by_def)
  have r1: "responses s1 = [(1, ''c'', R200 ''m1'' 0 ''t1'')]"
    using rollback_then_error[of "in_flight txn_committing" 1 txn_committing False "Run 1" s1]
      s1 ch g by auto
  have w1: "\<exists>s'. run False (in_flight txn_inserted) [Throw 1, Run 1] = Some s' \<and> msgs s' = []
         \<and> chats s' = chats0 \<and> map_of (txns s') 1 = None \<and> responses s' = [(1, ''c'', R500)]"
    using rollback_then_error[of "in_flight txn_inserted" 1 txn_inserted False] m1 p1
    by (simp add: f)
  have w2: "\<exists>s'. run False (in_flight txn_stranger) [Run 1, Run 1] = Some s' \<and> msgs s' = []
         \<and> chats s' = chats0 \<and> map_of (txns s') 1 = None \<and> responses s' = [(1, ''c'', R404)]"
    using rollback_then_error[of "in_flight txn_stranger" 1 txn_stranger False] m2 p2 o2
    by (simp add: f)
  have w3: "\<exists>s'. run False overtaken [Run 2, Run 2] = Some s' \<and> msgs s' = msgs overtaken
         \<and> chats s' = chats overtaken \<and> map_of (txns s') 2 = None
         \<and> responses s' = responses overtaken @ [(2, ''c'', R500)]"
    using rollback_then_error[of overtaken 2 txn_at_insert False] m3 p3 k3 t3
    by (simp add: f)
  show ?thesis using m1 m2 t3 s1 ch r1 w1 w2 w3 by blast
qed


end
